theory Spec2Isabelle
  imports Complex_Main
begin

section \<open>JavaScript strings\<close>

text \<open>
  A JavaScript string is a sequence of UTF-16 code units. A code unit is modelled by its
  number, a string by the list of its code units. \<open>ustr\<close> turns an ASCII literal of HOL
  into such a list, so that \<open>ustr ''3,49''\<close> is the JavaScript string \<^verbatim>\<open>"3,49"\<close>.
\<close>

type_synonym jsstring = "nat list"

definition ustr :: "string \<Rightarrow> jsstring" where
  "ustr s = map of_char s"

definition DOT :: nat where "DOT = 46"
definition COMMA :: nat where "COMMA = 44"
definition ZERO :: nat where "ZERO = 48"

text \<open>The character class \<^verbatim>\<open>[0-9]\<close> (also \<^verbatim>\<open>\d\<close>).\<close>

definition isDigit :: "nat \<Rightarrow> bool" where
  "isDigit c = (48 \<le> c \<and> c \<le> 57)"

text \<open>
  The character class \<^verbatim>\<open>\s\<close>, which is also what \<^verbatim>\<open>String.prototype.trim\<close> strips:
  tab, line feed, vertical tab, form feed, carriage return, space, U+00A0, U+1680,
  U+2000 to U+200A, U+2028, U+2029, U+202F, U+205F, U+3000 and U+FEFF.
\<close>

definition isSpace :: "nat \<Rightarrow> bool" where
  "isSpace c = (c = 9 \<or> c = 10 \<or> c = 11 \<or> c = 12 \<or> c = 13 \<or> c = 32 \<or> c = 160 \<or>
     c = 5760 \<or> (8192 \<le> c \<and> c \<le> 8202) \<or> c = 8232 \<or> c = 8233 \<or> c = 8239 \<or>
     c = 8287 \<or> c = 12288 \<or> c = 65279)"

text \<open>The character class \<^verbatim>\<open>[0-9.,]\<close>, whose complement line 29 deletes.\<close>

definition isNumChar :: "nat \<Rightarrow> bool" where
  "isNumChar c = (isDigit c \<or> c = DOT \<or> c = COMMA)"

text \<open>\<^verbatim>\<open>s.trim()\<close>: white space is removed at both ends.\<close>

definition trim :: "jsstring \<Rightarrow> jsstring" where
  "trim s = rev (dropWhile isSpace (rev (dropWhile isSpace s)))"

text \<open>\<^verbatim>\<open>s.includes(c)\<close> for a one-character string \<open>c\<close>.\<close>

definition includesChar :: "jsstring \<Rightarrow> nat \<Rightarrow> bool" where
  "includesChar s c = (c \<in> set s)"

text \<open>
  \<^verbatim>\<open>s.lastIndexOf(c)\<close> for a one-character string \<open>c\<close>: the greatest index at which \<open>c\<close>
  stands, and \<open>-1\<close> when it stands nowhere. \<open>lastIndexFrom i\<close> scans a suffix that begins at
  index \<open>i\<close>.
\<close>

fun lastIndexFrom :: "int \<Rightarrow> jsstring \<Rightarrow> nat \<Rightarrow> int" where
  "lastIndexFrom i [] c = -1"
| "lastIndexFrom i (x # xs) c =
     (let r = lastIndexFrom (i + 1) xs c in if r \<noteq> -1 then r else if x = c then i else -1)"

definition lastIndexOf :: "jsstring \<Rightarrow> nat \<Rightarrow> int" where
  "lastIndexOf s c = lastIndexFrom 0 s c"

text \<open>
  \<^verbatim>\<open>s.split(c)\<close> for a one-character string \<open>c\<close>: the pieces between the occurrences of
  \<open>c\<close>; a string with \<open>n\<close> occurrences has \<open>n + 1\<close> pieces, some of them possibly empty.
\<close>

fun split :: "jsstring \<Rightarrow> nat \<Rightarrow> jsstring list" where
  "split [] c = [[]]"
| "split (x # xs) c =
     (if x = c then [] # split xs c
      else (case split xs c of p # ps \<Rightarrow> (x # p) # ps | [] \<Rightarrow> [[x]]))"

text \<open>\<^verbatim>\<open>parts.join("")\<close>.\<close>

definition join :: "jsstring list \<Rightarrow> jsstring" where
  "join parts = concat parts"

text \<open>\<^verbatim>\<open>s.slice(a, b)\<close> and \<^verbatim>\<open>s.slice(a)\<close> for indices \<open>0 \<le> a \<le> b\<close>.\<close>

definition slice :: "jsstring \<Rightarrow> nat \<Rightarrow> nat \<Rightarrow> jsstring" where
  "slice s a b = take (b - a) (drop a s)"

definition sliceFrom :: "jsstring \<Rightarrow> nat \<Rightarrow> jsstring" where
  "sliceFrom s a = drop a s"

section \<open>The number token normalizer\<close>

text \<open>
  The three regular expressions of lines 58 and 59.

  \<^verbatim>\<open>/^0+\d/.test(t)\<close>: \<open>t\<close> begins with one or more \<^verbatim>\<open>0\<close> and then a digit. The digit may
  itself be a \<^verbatim>\<open>0\<close> that the greedy \<^verbatim>\<open>0+\<close> gives back, so either the character after the
  whole run of zeros is a digit, or the run has at least two zeros.

  \<^verbatim>\<open>/^0\./.test(t)\<close>: \<open>t\<close> begins with \<^verbatim>\<open>0.\<close>

  \<^verbatim>\<open>t.replace(/^0+/, "")\<close>: the whole run of zeros at the start is deleted.
\<close>

definition leadingZerosThenDigit :: "jsstring \<Rightarrow> bool" where
  "leadingZerosThenDigit t =
     (let zs = takeWhile (\<lambda>c. c = ZERO) t; r = dropWhile (\<lambda>c. c = ZERO) t
      in zs \<noteq> [] \<and> ((case r of [] \<Rightarrow> False | d # _ \<Rightarrow> isDigit d) \<or> 2 \<le> length zs))"

definition startsWithZeroDot :: "jsstring \<Rightarrow> bool" where
  "startsWithZeroDot t = (case t of a # b # _ \<Rightarrow> a = ZERO \<and> b = DOT | _ \<Rightarrow> False)"

definition stripLeadingZeros :: "jsstring \<Rightarrow> jsstring" where
  "stripLeadingZeros t = dropWhile (\<lambda>c. c = ZERO) t"

text \<open>Lines 37 to 45: both separators occur in \<open>t\<close>.\<close>

definition normalizeBoth :: "jsstring \<Rightarrow> jsstring" where
  "normalizeBoth t =
     (let lastDot = lastIndexOf t DOT;
          lastComma = lastIndexOf t COMMA;
          decSep = (if lastDot > lastComma then DOT else COMMA);
          thouSep = (if decSep = DOT then COMMA else DOT);
          t1 = join (split t thouSep);
          idx = lastIndexOf t1 decSep
      in if idx \<noteq> -1 then slice t1 0 (nat idx) @ [DOT] @ sliceFrom t1 (nat idx + 1) else t1)"

text \<open>Lines 47 to 54: at most one kind of separator occurs in \<open>t\<close>.\<close>

definition normalizeSingle :: "jsstring \<Rightarrow> jsstring" where
  "normalizeSingle t =
     (let t1 = map (\<lambda>c. if c = COMMA then DOT else c) t;
          parts = split t1 DOT
      in if length parts > 2
         then (let dec = last parts; parts' = butlast parts in join parts' @ [DOT] @ dec)
         else t1)"

definition normalizeNumberToken :: "jsstring \<Rightarrow> jsstring" where
  "normalizeNumberToken token =
     (let t0 = trim token;
          t1 = filter (\<lambda>c. \<not> isSpace c) t0;
          t = filter isNumChar t1
      in if t = [] then []
         else
           (let hasDot = includesChar t DOT;
                hasComma = includesChar t COMMA;
                t2 = (if hasDot \<and> hasComma then normalizeBoth t else normalizeSingle t)
            in if leadingZerosThenDigit t2 \<and> \<not> startsWithZeroDot t2
               then stripLeadingZeros t2 else t2))"

section \<open>Notions for the properties of the normalizer\<close>

text \<open>The canonical form of the specification: no comma and at most one point.\<close>

definition canonical :: "jsstring \<Rightarrow> bool" where
  "canonical r = (COMMA \<notin> set r \<and> length (filter (\<lambda>c. c = DOT) r) \<le> 1)"

text \<open>Lines 58 to 60 on their own: the zeros at the start are removed where the two tests say so.\<close>

definition dropZeros :: "jsstring \<Rightarrow> jsstring" where
  "dropZeros t =
     (if leadingZerosThenDigit t \<and> \<not> startsWithZeroDot t then stripLeadingZeros t else t)"

text \<open>The separator that line 40 takes for the decimal separator: the kind that occurs last.\<close>

definition decimalKind :: "jsstring \<Rightarrow> nat" where
  "decimalKind t = (if lastIndexOf t DOT > lastIndexOf t COMMA then DOT else COMMA)"

section \<open>JavaScript numbers\<close>

text \<open>
  A JavaScript number is an IEEE 754 double. The finite doubles are rational numbers, so a
  number is modelled as \<open>NaN\<close>, an infinity, or \<open>Fin x\<close> for a rational \<open>x\<close>; an arithmetic
  operation computes the exact rational result and rounds it to the nearest double, ties
  to the even significand, as the standard prescribes. The two zeros of IEEE 754 are one
  value here: the program never divides by a computed zero, and \<^verbatim>\<open>-0\<close> prints as \<^verbatim>\<open>0\<close>
  in JSON and in \<^verbatim>\<open>toFixed\<close> output compared below.
\<close>

datatype number = NaN | PosInf | NegInf | Fin rat

text \<open>\<open>ilog2 x\<close> is the binary exponent of \<open>x > 0\<close>: \<open>2 ^ e \<le> x < 2 ^ (e + 1)\<close>.\<close>

function expUp :: "rat \<Rightarrow> int" where
  "expUp x = (if 2 \<le> x then expUp (x / 2) + 1 else 0)"
  by pat_completeness auto
termination
proof (relation "measure (\<lambda>x. nat \<lfloor>x\<rfloor>)")
  show "wf (measure (\<lambda>x::rat. nat \<lfloor>x\<rfloor>))" by simp
next
  fix x :: rat
  assume h: "2 \<le> x"
  have "x / 2 \<le> x - 1" using h by simp
  then have "\<lfloor>x / 2\<rfloor> \<le> \<lfloor>x - 1\<rfloor>" by (rule floor_mono)
  then have "\<lfloor>x / 2\<rfloor> < \<lfloor>x\<rfloor>" by simp
  moreover have "0 < \<lfloor>x\<rfloor>" using h by simp
  ultimately show "(x / 2, x) \<in> measure (\<lambda>x. nat \<lfloor>x\<rfloor>)" by simp
qed

function expDown :: "rat \<Rightarrow> int" where
  "expDown x = (if 0 < x \<and> x < 1 then expDown (2 * x) - 1 else 0)"
  by pat_completeness auto
termination
proof (relation "measure (\<lambda>x. nat \<lfloor>1 / x\<rfloor>)")
  show "wf (measure (\<lambda>x::rat. nat \<lfloor>1 / x\<rfloor>))" by simp
next
  fix x :: rat
  assume h: "0 < x \<and> x < 1"
  define y where "y = 1 / x"
  have y1: "1 < y" using h by (simp add: y_def)
  have eq: "1 / (2 * x) = y / 2" by (simp add: y_def)
  have "\<lfloor>y / 2\<rfloor> < \<lfloor>y\<rfloor>"
  proof (cases "2 \<le> y")
    case True
    then have "y / 2 \<le> y - 1" by simp
    then have "\<lfloor>y / 2\<rfloor> \<le> \<lfloor>y - 1\<rfloor>" by (rule floor_mono)
    then show ?thesis by simp
  next
    case False
    then have "y / 2 < 1" by simp
    then have "\<lfloor>y / 2\<rfloor> < 1" by (simp add: floor_less_iff)
    moreover have "1 \<le> \<lfloor>y\<rfloor>" using y1 by (simp add: le_floor_iff)
    ultimately show ?thesis by linarith
  qed
  then have "\<lfloor>1 / (2 * x)\<rfloor> < \<lfloor>1 / x\<rfloor>" by (simp add: eq y_def)
  moreover have "0 < \<lfloor>1 / x\<rfloor>" using h by simp
  ultimately show "(2 * x, x) \<in> measure (\<lambda>x. nat \<lfloor>1 / x\<rfloor>)" by simp
qed

declare expUp.simps [simp del]
declare expDown.simps [simp del]

definition ilog2 :: "rat \<Rightarrow> int" where
  "ilog2 x = (if 1 \<le> x then expUp x else expDown x)"

text \<open>\<open>scale2 x q\<close> is \<open>x\<close> times \<open>2\<close> to the power \<open>q\<close>, for an exponent of either sign.\<close>

definition scale2 :: "rat \<Rightarrow> int \<Rightarrow> rat" where
  "scale2 x q = x * 2 powi q"

definition roundHalfEven :: "rat \<Rightarrow> int" where
  "roundHalfEven y =
     (let f = \<lfloor>y\<rfloor>; r = y - of_int f
      in if r < 1 / 2 then f else if 1 / 2 < r then f + 1 else if even f then f else f + 1)"

text \<open>
  Rounding to the nearest double: the significand has 53 bits, the least exponent of the
  last place is \<open>-1074\<close> (below it the subnormal numbers lose precision), and a result of
  \<open>2 ^ 1024\<close> or more is an infinity.
\<close>

definition roundToDouble :: "rat \<Rightarrow> number" where
  "roundToDouble x =
     (if x = 0 then Fin 0
      else
        (let a = \<bar>x\<bar>;
             q = max (ilog2 a - 52) (- 1074);
             m = roundHalfEven (scale2 a (- q));
             v = scale2 (of_int m) q
         in if 2 ^ 1024 \<le> v then (if 0 < x then PosInf else NegInf)
            else Fin (if 0 < x then v else - v)))"

fun num_neg :: "number \<Rightarrow> number" where
  "num_neg NaN = NaN"
| "num_neg PosInf = NegInf"
| "num_neg NegInf = PosInf"
| "num_neg (Fin x) = Fin (- x)"

text \<open>\<^verbatim>\<open>a + b\<close>, \<^verbatim>\<open>a - b\<close>, \<^verbatim>\<open>a * b\<close> and \<^verbatim>\<open>a / b\<close> on numbers.\<close>

fun num_add :: "number \<Rightarrow> number \<Rightarrow> number" where
  "num_add (Fin x) (Fin y) = roundToDouble (x + y)"
| "num_add NaN b = NaN"
| "num_add a NaN = NaN"
| "num_add PosInf NegInf = NaN"
| "num_add NegInf PosInf = NaN"
| "num_add PosInf b = PosInf"
| "num_add NegInf b = NegInf"
| "num_add a PosInf = PosInf"
| "num_add a NegInf = NegInf"

definition num_sub :: "number \<Rightarrow> number \<Rightarrow> number" where
  "num_sub a b = num_add a (num_neg b)"

text \<open>The sign of a number that is not \<open>NaN\<close>: \<open>1\<close>, \<open>0\<close> or \<open>-1\<close>.\<close>

fun num_sgn :: "number \<Rightarrow> int" where
  "num_sgn NaN = 0"
| "num_sgn PosInf = 1"
| "num_sgn NegInf = - 1"
| "num_sgn (Fin x) = (if 0 < x then 1 else if x < 0 then - 1 else 0)"

definition signedInf :: "int \<Rightarrow> number" where
  "signedInf s = (if 0 \<le> s then PosInf else NegInf)"

fun num_mul :: "number \<Rightarrow> number \<Rightarrow> number" where
  "num_mul (Fin x) (Fin y) = roundToDouble (x * y)"
| "num_mul NaN b = NaN"
| "num_mul a NaN = NaN"
| "num_mul PosInf b = (if num_sgn b = 0 then NaN else signedInf (num_sgn b))"
| "num_mul NegInf b = (if num_sgn b = 0 then NaN else signedInf (- num_sgn b))"
| "num_mul a PosInf = (if num_sgn a = 0 then NaN else signedInf (num_sgn a))"
| "num_mul a NegInf = (if num_sgn a = 0 then NaN else signedInf (- num_sgn a))"

text \<open>A finite number divided by zero is an infinity of its sign (the zero is \<^verbatim>\<open>+0\<close>).\<close>

fun num_div :: "number \<Rightarrow> number \<Rightarrow> number" where
  "num_div (Fin x) (Fin y) =
     (if y = 0 then (if x = 0 then NaN else signedInf (num_sgn (Fin x)))
      else roundToDouble (x / y))"
| "num_div NaN b = NaN"
| "num_div a NaN = NaN"
| "num_div (Fin x) b = Fin 0"
| "num_div PosInf (Fin y) = signedInf (if y < 0 then - 1 else 1)"
| "num_div NegInf (Fin y) = signedInf (if y < 0 then 1 else - 1)"
| "num_div PosInf b = NaN"
| "num_div NegInf b = NaN"

text \<open>The comparisons \<^verbatim>\<open>a < b\<close> and \<^verbatim>\<open>a <= b\<close>; both are false when an operand is \<open>NaN\<close>.\<close>

fun num_lt :: "number \<Rightarrow> number \<Rightarrow> bool" where
  "num_lt (Fin x) (Fin y) = (x < y)"
| "num_lt NaN b = False"
| "num_lt a NaN = False"
| "num_lt PosInf b = False"
| "num_lt a NegInf = False"
| "num_lt NegInf b = True"
| "num_lt a PosInf = True"

definition num_le :: "number \<Rightarrow> number \<Rightarrow> bool" where
  "num_le a b = (a \<noteq> NaN \<and> b \<noteq> NaN \<and> (a = b \<or> num_lt a b))"

text \<open>\<^verbatim>\<open>Number.isFinite(a)\<close>, and the truth value of a number: \<open>0\<close> and \<open>NaN\<close> are false.\<close>

fun Number_isFinite :: "number \<Rightarrow> bool" where
  "Number_isFinite (Fin x) = True"
| "Number_isFinite a = False"

fun truthy :: "number \<Rightarrow> bool" where
  "truthy NaN = False"
| "truthy (Fin x) = (x \<noteq> 0)"
| "truthy a = True"

text \<open>
  \<^verbatim>\<open>Math.round(a)\<close>: the nearest integer, a tie going up. The result is a double whenever
  \<open>a\<close> is. \<^verbatim>\<open>Math.min(a, b)\<close> and \<^verbatim>\<open>Number.EPSILON\<close>.
\<close>

fun Math_round :: "number \<Rightarrow> number" where
  "Math_round (Fin x) = Fin (of_int \<lfloor>x + 1 / 2\<rfloor>)"
| "Math_round a = a"

definition Math_min :: "number \<Rightarrow> number \<Rightarrow> number" where
  "Math_min a b = (if a = NaN \<or> b = NaN then NaN else if num_lt b a then b else a)"

definition EPSILON :: number where
  "EPSILON = Fin (1 / 2 ^ 52)"

text \<open>
  Every finite double is an integer multiple of \<open>2\<close> to the power \<open>-1074\<close>, the least
  positive double. \<open>isDouble\<close> holds of the numbers that the operations above can return.
\<close>

definition onGrid :: "rat \<Rightarrow> bool" where
  "onGrid x = (\<exists>k::int. x = of_int k * 2 powi (- 1074))"

fun isDouble :: "number \<Rightarrow> bool" where
  "isDouble (Fin x) = onGrid x"
| "isDouble a = True"

section \<open>Parsing and printing numbers\<close>

definition digitVal :: "nat \<Rightarrow> nat" where
  "digitVal c = c - 48"

text \<open>The value of a string of decimal digits; \<open>0\<close> for the empty string.\<close>

definition digitsVal :: "jsstring \<Rightarrow> nat" where
  "digitsVal ds = foldl (\<lambda>a c. 10 * a + digitVal c) 0 ds"

definition scale10 :: "rat \<Rightarrow> int \<Rightarrow> rat" where
  "scale10 x k = x * 10 powi k"

definition startsWith :: "jsstring \<Rightarrow> jsstring \<Rightarrow> bool" where
  "startsWith s p = (take (length p) s = p)"

text \<open>
  The exponent part of a decimal literal, read at the start of \<open>s\<close>: \<^verbatim>\<open>e\<close> or \<^verbatim>\<open>E\<close>, an
  optional sign and at least one digit. The result is the exponent and what follows the
  exponent part. Where no well-formed exponent part stands, the literal ends before it:
  the exponent is \<open>0\<close> and all of \<open>s\<close> follows.
\<close>

definition exponentPart :: "jsstring \<Rightarrow> int \<times> jsstring" where
  "exponentPart s =
     (case s of
        [] \<Rightarrow> (0, s)
      | c # r \<Rightarrow>
          if c = 101 \<or> c = 69 then
            (let neg = (case r of [] \<Rightarrow> False | g # _ \<Rightarrow> g = 45);
                 r' = (case r of [] \<Rightarrow> [] | g # r1 \<Rightarrow> if g = 43 \<or> g = 45 then r1 else r);
                 ds = takeWhile isDigit r'
             in if ds = [] then (0, s)
                else (if neg then - int (digitsVal ds) else int (digitsVal ds),
                      dropWhile isDigit r'))
          else (0, s))"

text \<open>
  The longest unsigned decimal literal at the start of \<open>s\<close>: digits with an optional
  fraction and an optional exponent part, or a fraction that begins with the point. The
  result is the exact value of the literal and what follows it, or \<open>None\<close> where no
  literal begins.
\<close>

definition decimalLiteral :: "jsstring \<Rightarrow> (rat \<times> jsstring) option" where
  "decimalLiteral s =
     (let ip = takeWhile isDigit s;
          r1 = dropWhile isDigit s;
          hasPoint = (case r1 of [] \<Rightarrow> False | c # _ \<Rightarrow> c = DOT);
          fp = (if hasPoint then takeWhile isDigit (tl r1) else []);
          r2 = (if hasPoint then dropWhile isDigit (tl r1) else r1)
      in if ip = [] \<and> fp = [] then None
         else (case exponentPart r2 of
                 (ex, r3) \<Rightarrow>
                   Some (scale10 (of_nat (digitsVal (ip @ fp))) (ex - int (length fp)), r3)))"

text \<open>
  \<^verbatim>\<open>Number.parseFloat(s)\<close>: leading white space is skipped, then the longest prefix that is
  a decimal literal is read (an optional sign, then \<^verbatim>\<open>Infinity\<close> or an unsigned decimal
  literal); what follows the literal is ignored; the result is \<open>NaN\<close> where no literal
  begins. The value of the literal is rounded to a double.
\<close>

definition parseUnsigned :: "jsstring \<Rightarrow> number" where
  "parseUnsigned s =
     (if startsWith s (ustr ''Infinity'') then PosInf
      else (case decimalLiteral s of None \<Rightarrow> NaN | Some (x, r) \<Rightarrow> roundToDouble x))"

definition parseFloat :: "jsstring \<Rightarrow> number" where
  "parseFloat s =
     (let t = dropWhile isSpace s
      in case t of
           [] \<Rightarrow> NaN
         | c # r \<Rightarrow>
             if c = 45 then num_neg (parseUnsigned r)
             else if c = 43 then parseUnsigned r
             else parseUnsigned t)"

text \<open>The decimal digits of a natural number, most significant first.\<close>

fun digitsOf :: "nat \<Rightarrow> jsstring" where
  "digitsOf n = (if n < 10 then [48 + n] else digitsOf (n div 10) @ [48 + n mod 10])"

declare digitsOf.simps [simp del]

text \<open>
  \<^verbatim>\<open>x.toFixed(2)\<close>: the integer \<open>n\<close> for which \<open>n / 100\<close> is nearest to \<open>x\<close> (the larger one
  of two) is printed with a point before its last two digits, and with zeros in front where
  it has fewer than three digits. For \<open>x\<close> of \<open>10 ^ 21\<close> or more JavaScript prints an exponent
  instead; \<open>extractAmounts\<close> calls \<^verbatim>\<open>toFixed\<close> below \<open>100000\<close> only.
\<close>

definition fixed2 :: "rat \<Rightarrow> jsstring" where
  "fixed2 x =
     (let n = nat \<lfloor>x * 100 + 1 / 2\<rfloor>;
          m = digitsOf n;
          m' = (if length m \<le> 2 then replicate (3 - length m) ZERO @ m else m);
          k = length m'
      in take (k - 2) m' @ [DOT] @ drop (k - 2) m')"

fun toFixed2 :: "number \<Rightarrow> jsstring" where
  "toFixed2 NaN = ustr ''NaN''"
| "toFixed2 PosInf = ustr ''Infinity''"
| "toFixed2 NegInf = ustr ''-Infinity''"
| "toFixed2 (Fin x) = (if x < 0 then 45 # fixed2 (- x) else fixed2 x)"

section \<open>The candidate extractor\<close>

text \<open>
  The token pattern \<^verbatim>\<open>/[0-9][0-9.,\s]{0,15}[0-9]/g\<close>. At a position that holds a digit the
  bounded repetition first takes as many characters of its class as there are, at most
  fifteen, and then gives them back one at a time until a digit follows; \<open>backtrack r k\<close>
  tries \<open>k\<close>, \<open>k - 1\<close>, \<dots>, \<open>0\<close> characters for the repetition and returns the first number
  that succeeds. \<open>matchAt s\<close> is the length of the match that begins at the head of \<open>s\<close>.
\<close>

definition isTokenChar :: "nat \<Rightarrow> bool" where
  "isTokenChar c = (isDigit c \<or> c = DOT \<or> c = COMMA \<or> isSpace c)"

definition digitAt :: "jsstring \<Rightarrow> nat \<Rightarrow> bool" where
  "digitAt r k = (k < length r \<and> isDigit (r ! k))"

fun backtrack :: "jsstring \<Rightarrow> nat \<Rightarrow> nat option" where
  "backtrack r 0 = (if digitAt r 0 then Some 0 else None)"
| "backtrack r (Suc k) = (if digitAt r (Suc k) then Some (Suc k) else backtrack r k)"

definition matchAt :: "jsstring \<Rightarrow> nat option" where
  "matchAt s =
     (case s of
        [] \<Rightarrow> None
      | c # r \<Rightarrow>
          if isDigit c
          then (case backtrack r (length (takeWhile isTokenChar (take 15 r))) of
                  None \<Rightarrow> None
                | Some k \<Rightarrow> Some (k + 2))
          else None)"

lemma backtrack_le: "backtrack r n = Some k \<Longrightarrow> k \<le> n"
  by (induction n) (auto split: if_splits)

lemma matchAt_pos: "matchAt s = Some n \<Longrightarrow> 2 \<le> n"
  by (auto simp: matchAt_def split: list.splits if_splits option.splits)

text \<open>
  \<^verbatim>\<open>raw.match(/.../g) || []\<close>: the matches from left to right, each search beginning where
  the match before it ended, and the empty list where there is none.
\<close>

function matchAll :: "jsstring \<Rightarrow> jsstring list" where
  "matchAll [] = []"
| "matchAll (c # cs) =
     (case matchAt (c # cs) of
        None \<Rightarrow> matchAll cs
      | Some n \<Rightarrow> take n (c # cs) # matchAll (drop n (c # cs)))"
  by pat_completeness auto
termination
proof (relation "measure length")
  show "wf (measure (length :: jsstring \<Rightarrow> nat))" by simp
next
  fix c :: nat and cs :: jsstring
  show "(cs, c # cs) \<in> measure length" by simp
next
  fix c :: nat and cs :: jsstring and n :: nat
  assume "matchAt (c # cs) = Some n"
  then have "2 \<le> n" by (rule matchAt_pos)
  then show "(drop n (c # cs), c # cs) \<in> measure length" by simp
qed

record candidate =
  "value" :: number
  normalized :: jsstring
  score :: number

text \<open>\<^verbatim>\<open>/\.\d{1,2}$/.test(norm)\<close> (\<open>nrm\<close> below): the string ends with a point and one or two digits.\<close>

definition endsWithDecimals :: "jsstring \<Rightarrow> bool" where
  "endsWithDecimals s =
     (case rev s of
        a # b # r \<Rightarrow>
          isDigit a \<and> (b = DOT \<or> (isDigit b \<and> (case r of [] \<Rightarrow> False | c # _ \<Rightarrow> c = DOT)))
      | _ \<Rightarrow> False)"

text \<open>Lines 87 to 91. The literal \<^verbatim>\<open>0.2\<close> is the double nearest to one fifth.\<close>

definition scoreOf :: "jsstring \<Rightarrow> number \<Rightarrow> number" where
  "scoreOf nrm val =
     (let hasDecimals = (if endsWithDecimals nrm then Fin 1 else Fin 0);
          inTypicalRange =
            (if num_le (roundToDouble (2 / 10)) val \<and> num_le val (Fin 5000) then Fin 1 else Fin 0);
          tokenLen = num_div (Math_min (Fin (of_nat (length nrm))) (Fin 10)) (Fin 10)
      in num_add (num_add (num_mul hasDecimals (Fin 2)) (num_mul inTypicalRange (Fin 2))) tokenLen)"

text \<open>
  The loop of lines 71 to 94, with the set \<open>seen\<close> and the array \<open>amounts\<close> as its state;
  each \<^verbatim>\<open>continue\<close> goes on with the next token and the state as it is.
\<close>

fun collect :: "jsstring list \<Rightarrow> jsstring set \<Rightarrow> candidate list \<Rightarrow> candidate list" where
  "collect [] seen amounts = amounts"
| "collect (tok # toks) seen amounts =
     (let nrm = normalizeNumberToken tok
      in if nrm = [] then collect toks seen amounts
         else
           (let val = parseFloat nrm
            in if \<not> Number_isFinite val then collect toks seen amounts
               else if num_le val (Fin 0) \<or> num_le (Fin 100000) val then collect toks seen amounts
               else
                 (let key = toFixed2 val
                  in if key \<in> seen then collect toks seen amounts
                     else collect toks (insert key seen)
                            (amounts @ [\<lparr>value = val, normalized = nrm, score = scoreOf nrm val\<rparr>]))))"

text \<open>
  The comparison function of line 96, \<^verbatim>\<open>(a, b) => b.score - a.score || b.value - a.value\<close>:
  the second difference is taken where the first is \<open>0\<close> or \<open>NaN\<close>.
\<close>

definition compareFn :: "candidate \<Rightarrow> candidate \<Rightarrow> number" where
  "compareFn a b =
     (let d = num_sub (score b) (score a)
      in if truthy d then d else num_sub (value b) (value a))"

text \<open>
  \<^verbatim>\<open>Array.prototype.sort\<close> is stable: \<open>a\<close> stays before \<open>b\<close> unless the comparison function
  returns a number greater than \<open>0\<close> for them. With a comparison function that is a
  consistent order every stable sort returns the same array; it is computed here by
  insertion, from the right.
\<close>

fun insertSorted :: "candidate \<Rightarrow> candidate list \<Rightarrow> candidate list" where
  "insertSorted a [] = [a]"
| "insertSorted a (b # bs) =
     (if num_lt (Fin 0) (compareFn a b) then b # insertSorted a bs else a # b # bs)"

definition sortCandidates :: "candidate list \<Rightarrow> candidate list" where
  "sortCandidates cs = foldr insertSorted cs []"

definition extractAmounts :: "jsstring \<Rightarrow> candidate list" where
  "extractAmounts text =
     (let raw = text;
          tokens = matchAll raw;
          amounts = collect tokens {} []
      in take 8 (sortCandidates amounts))"

section \<open>Notions for the properties of the extractor\<close>

text \<open>The key of line 82, under which a candidate is entered in \<open>seen\<close>.\<close>

definition keyOf :: "candidate \<Rightarrow> jsstring" where
  "keyOf c = toFixed2 (value c)"

text \<open>
  The candidate that lines 72 to 93 make of one token, when none of the three
  \<^verbatim>\<open>continue\<close> statements of lines 73, 76 and 79 discards it.
\<close>

definition tokenCandidate :: "jsstring \<Rightarrow> candidate option" where
  "tokenCandidate tok =
     (let nrm = normalizeNumberToken tok
      in if nrm = [] then None
         else
           (let val = parseFloat nrm
            in if \<not> Number_isFinite val then None
               else if num_le val (Fin 0) \<or> num_le (Fin 100000) val then None
               else Some \<lparr>value = val, normalized = nrm, score = scoreOf nrm val\<rparr>))"

text \<open>
  \<open>c\<close> is made of a token of \<open>toks\<close>, and no token before that one makes a candidate
  with the key of \<open>c\<close>.
\<close>

definition firstOccurrence :: "jsstring list \<Rightarrow> candidate \<Rightarrow> bool" where
  "firstOccurrence toks c =
     (\<exists>pre tok post. toks = pre @ tok # post \<and> tokenCandidate tok = Some c \<and>
        (\<forall>t \<in> set pre. \<forall>c'. tokenCandidate t = Some c' \<longrightarrow> keyOf c' \<noteq> keyOf c))"

text \<open>
  The loop of lines 71 to 94 again, as the list of the candidates it adds to \<open>amounts\<close>:
  of the tokens that make a candidate, the first one with each key.
\<close>

fun firsts :: "jsstring list \<Rightarrow> jsstring set \<Rightarrow> candidate list" where
  "firsts [] seen = []"
| "firsts (tok # toks) seen =
     (case tokenCandidate tok of
        None \<Rightarrow> firsts toks seen
      | Some c \<Rightarrow>
          if keyOf c \<in> seen then firsts toks seen
          else c # firsts toks (insert (keyOf c) seen))"

text \<open>
  What the loop guarantees of a candidate: a finite value strictly between \<open>0\<close> and
  \<open>100000\<close> and a finite score, both doubles.
\<close>

definition good :: "candidate \<Rightarrow> bool" where
  "good c = (\<exists>v s. value c = Fin v \<and> 0 < v \<and> v < 100000 \<and> onGrid v \<and> score c = Fin s \<and> onGrid s)"

text \<open>The value lies strictly between \<open>0\<close> and \<open>100000\<close>.\<close>

definition inOpenRange :: "number \<Rightarrow> bool" where
  "inOpenRange v = (num_lt (Fin 0) v \<and> num_lt v (Fin 100000))"

text \<open>
  \<open>a\<close> may stand before \<open>b\<close> in the ranking: its score is greater, or the scores are equal
  and its value is not less.
\<close>

definition rankedBefore :: "candidate \<Rightarrow> candidate \<Rightarrow> bool" where
  "rankedBefore a b =
     (num_lt (score b) (score a) \<or> (score a = score b \<and> num_le (value b) (value a)))"

text \<open>
  The text of the specification's example, whose Cyrillic letters are given by their code
  units: U+0426 U+0435 U+043D U+0430, then \<^verbatim>\<open> 3.49 \<close>, U+043B U+0432, \<^verbatim>\<open>. \<close>,
  U+0441 U+0442 U+0430 U+0440, and \<^verbatim>\<open> 12,00\<close>.
\<close>

definition priceTagText :: jsstring where
  "priceTagText =
     [1062, 1077, 1085, 1072] @ ustr '' 3.49 '' @ [1083, 1074] @ ustr ''. '' @
     [1089, 1090, 1072, 1088] @ ustr '' 12,00''"

section \<open>The conversion endpoint\<close>

text \<open>
  A query parameter that is given once is a string, and one that is absent is
  \<^verbatim>\<open>undefined\<close>. (A parameter that is repeated or written with brackets is an array or
  an object; such requests are outside of this model.)
\<close>

datatype qvalue = Undefined | Str jsstring

text \<open>
  The value of a digit in a literal of the given radix, \<open>None\<close> for a character that is
  not such a digit; and the value of a string of digits, \<open>None\<close> when one of them is not
  a digit.
\<close>

definition radixDigit :: "nat \<Rightarrow> nat \<Rightarrow> nat option" where
  "radixDigit radix c =
     (let v = (if isDigit c then Some (c - 48)
               else if 97 \<le> c \<and> c \<le> 102 then Some (c - 87)
               else if 65 \<le> c \<and> c \<le> 70 then Some (c - 55)
               else None)
      in case v of None \<Rightarrow> None | Some d \<Rightarrow> if d < radix then Some d else None)"

fun radixVal :: "nat \<Rightarrow> nat \<Rightarrow> jsstring \<Rightarrow> nat option" where
  "radixVal radix acc [] = Some acc"
| "radixVal radix acc (c # cs) =
     (case radixDigit radix c of
        None \<Rightarrow> None
      | Some d \<Rightarrow> radixVal radix (radix * acc + d) cs)"

text \<open>
  A literal with a radix prefix: \<^verbatim>\<open>0x\<close>, \<^verbatim>\<open>0o\<close> or \<^verbatim>\<open>0b\<close> (the letter in either case) and
  at least one digit of that radix.
\<close>

definition radixLiteral :: "jsstring \<Rightarrow> nat option" where
  "radixLiteral s =
     (case s of
        z # p # ds \<Rightarrow>
          if z = ZERO \<and> ds \<noteq> [] then
            (if p = 120 \<or> p = 88 then radixVal 16 0 ds
             else if p = 111 \<or> p = 79 then radixVal 8 0 ds
             else if p = 98 \<or> p = 66 then radixVal 2 0 ds
             else None)
          else None
      | _ \<Rightarrow> None)"

text \<open>
  \<^verbatim>\<open>Number(v)\<close>: \<open>NaN\<close> for \<^verbatim>\<open>undefined\<close>; for a string, white space is removed at both
  ends, the empty string is \<open>0\<close>, and otherwise the whole string must be a literal with a
  radix prefix, or an optional sign and then \<^verbatim>\<open>Infinity\<close> or an unsigned decimal literal;
  any other string is \<open>NaN\<close>.
\<close>

definition strictUnsigned :: "jsstring \<Rightarrow> number" where
  "strictUnsigned s =
     (if s = ustr ''Infinity'' then PosInf
      else (case decimalLiteral s of
              None \<Rightarrow> NaN
            | Some (x, r) \<Rightarrow> if r = [] then roundToDouble x else NaN))"

definition toNumber :: "qvalue \<Rightarrow> number" where
  "toNumber v =
     (case v of
        Undefined \<Rightarrow> NaN
      | Str s \<Rightarrow>
          (let t = trim s
           in case t of
                [] \<Rightarrow> Fin 0
              | c # r \<Rightarrow>
                  (case radixLiteral t of
                     Some n \<Rightarrow> roundToDouble (of_nat n)
                   | None \<Rightarrow>
                       if c = 45 then num_neg (strictUnsigned r)
                       else if c = 43 then strictUnsigned r
                       else strictUnsigned t)))"

text \<open>
  \<^verbatim>\<open>s.toUpperCase()\<close>. The letters \<^verbatim>\<open>a\<close> to \<^verbatim>\<open>z\<close> become \<^verbatim>\<open>A\<close> to \<^verbatim>\<open>Z\<close>; the code units
  outside ASCII are left as they are here. JavaScript maps some of them as well, but none
  of them to a string of the letters of \<^verbatim>\<open>BGN\<close> and \<^verbatim>\<open>EUR\<close>, so the test of line 139,
  the only use of the result, is the same.
\<close>

definition toUpperCase :: "jsstring \<Rightarrow> jsstring" where
  "toUpperCase s = map (\<lambda>c. if 97 \<le> c \<and> c \<le> 122 then c - 32 else c) s"

text \<open>
  Line 135, \<^verbatim>\<open>String(req.query.from || "BGN").toUpperCase()\<close>: the default stands in for
  an absent parameter and for the empty string.
\<close>

definition fromCode :: "qvalue \<Rightarrow> jsstring" where
  "fromCode q =
     toUpperCase (case q of Undefined \<Rightarrow> ustr ''BGN'' | Str s \<Rightarrow> if s = [] then ustr ''BGN'' else s)"

text \<open>Lines 18 to 22. The literal \<^verbatim>\<open>1.95583\<close> is the double nearest to that decimal.\<close>

definition RATE :: number where
  "RATE = roundToDouble (195583 / 100000)"

definition round2 :: "number \<Rightarrow> number" where
  "round2 n = num_div (Math_round (num_mul (num_add n EPSILON) (Fin 100))) (Fin 100)"

text \<open>
  The response: the status code and the object given to \<^verbatim>\<open>res.json\<close>, which is either
  \<^verbatim>\<open>{error}\<close> or \<^verbatim>\<open>{rate, amount, from, bgn, eur}\<close>.
\<close>

record conversion =
  c_rate :: number
  c_amount :: number
  c_from :: jsstring
  c_bgn :: number
  c_eur :: number

datatype body = ErrorBody jsstring | ConversionBody conversion

record response =
  status :: nat
  json :: body

text \<open>The handler of lines 133 to 145, applied to the two query parameters.\<close>

definition convert :: "qvalue \<Rightarrow> qvalue \<Rightarrow> response" where
  "convert q_amount q_from =
     (let amount = toNumber q_amount;
          from = fromCode q_from
      in if \<not> Number_isFinite amount
         then \<lparr>status = 400, json = ErrorBody (ustr ''Invalid amount'')\<rparr>
         else if from \<noteq> ustr ''BGN'' \<and> from \<noteq> ustr ''EUR''
         then \<lparr>status = 400, json = ErrorBody (ustr ''from must be BGN or EUR'')\<rparr>
         else
           (let eur = (if from = ustr ''BGN'' then num_div amount RATE else amount);
                bgn = (if from = ustr ''EUR'' then num_mul amount RATE else amount)
            in \<lparr>status = 200,
                json = ConversionBody
                  \<lparr>c_rate = RATE, c_amount = amount, c_from = from,
                   c_bgn = round2 bgn, c_eur = round2 eur\<rparr>\<rparr>))"

section \<open>Notions for the properties of the conversion endpoint\<close>

text \<open>
  \<open>rounded2 v r\<close>: the number \<open>r\<close> is \<open>v\<close> rounded to two decimals. Both are finite, and \<open>r\<close> is
  the double nearest to a number \<open>k / 100\<close> with two decimals that is as near to \<open>v\<close> as half
  a hundredth, up to the error of the double arithmetic, which is less than
  \<open>(\<bar>v\<bar> + 1) / 2 ^ 50\<close>.
\<close>

definition rounded2 :: "number \<Rightarrow> number \<Rightarrow> bool" where
  "rounded2 v r =
     (\<exists>x k. v = Fin x \<and> Number_isFinite r \<and> r = roundToDouble (of_int k / 100) \<and>
        \<bar>of_int k / 100 - x\<bar> \<le> 1 / 200 + (\<bar>x\<bar> + 1) / 2 ^ 50)"

text \<open>
  The amount parameter is a finite number, in the widest reading: the parameter is
  present, a digit stands in it, and \<^verbatim>\<open>Number\<close> reads a finite number from it.
\<close>

definition writtenNumber :: "qvalue \<Rightarrow> bool" where
  "writtenNumber q =
     (case q of
        Undefined \<Rightarrow> False
      | Str s \<Rightarrow> (\<exists>c \<in> set s. isDigit c) \<and> Number_isFinite (toNumber q))"

section \<open>The recognition engine manager\<close>

text \<open>
  Lines 101 to 126 run on JavaScript's event loop: the code between two \<^verbatim>\<open>await\<close>s runs
  without interruption, and the continuations that a settled promise makes ready all run,
  in the order in which they were registered, before the next outside event is handled.
  The outside events are a call of \<open>runOcr\<close>, the settling of the initialization that
  \<open>getWorker\<close> began (\<^verbatim>\<open>createWorker\<close> followed by \<^verbatim>\<open>setParameters\<close>; either may reject), and
  the settling of the \<^verbatim>\<open>recognize\<close> call in flight. The model is a state and one
  transition for each event, which includes the continuations that the event makes ready.

  An image buffer, a recognition result and an error are opaque to the manager; numbers
  stand for them.
\<close>

type_synonym buffer = nat
type_synonym ocrResult = nat
type_synonym err = nat

datatype 'a settle = Resolved 'a | Rejected err

datatype 'a promise = Pending | Settled "'a settle"

text \<open>
  A promise made by \<^verbatim>\<open>queue.then(...)\<close> at line 121: its callback has not run yet
  (\<open>Waiting\<close>), or has run and awaits \<^verbatim>\<open>worker.recognize\<close> (\<open>Running\<close>), or the promise is
  settled. A promise of \<open>runOcr\<close> adopts the state of the promise it returns at line 125.
\<close>

datatype linkState = Waiting | Running | Finished "ocrResult settle"

text \<open>
  The state: the variable \<open>workerPromise\<close> (\<open>None\<close> for \<^verbatim>\<open>null\<close>); the number of calls of
  \<^verbatim>\<open>createWorker\<close> so far; the buffers of the calls of \<open>runOcr\<close> that are suspended at line
  119, oldest first; the promises made at line 121 with their buffers, oldest first, each
  chained to the one before it (the variable \<open>queue\<close> holds the last of them, and before
  the first call the resolved promise of line 102); the buffers given to
  \<^verbatim>\<open>worker.recognize\<close>, oldest first; and the promises of \<open>runOcr\<close> that have settled, in
  the order of settling, each with the buffer of its call.
\<close>

record manager =
  workerPromise :: "unit promise option"
  createWorkerCalls :: nat
  awaiting :: "buffer list"
  chain :: "(buffer \<times> linkState) list"
  recognized :: "buffer list"
  settled :: "(buffer \<times> ocrResult settle) list"

definition initial :: manager where
  "initial = \<lparr>workerPromise = None, createWorkerCalls = 0, awaiting = [], chain = [],
     recognized = [], settled = []\<rparr>"

text \<open>The state of the promise that the variable \<open>queue\<close> holds.\<close>

definition queuePromise :: "manager \<Rightarrow> unit promise" where
  "queuePromise s =
     (case chain s of
        [] \<Rightarrow> Settled (Resolved ())
      | _ \<Rightarrow>
          (case snd (last (chain s)) of
             Finished (Resolved r) \<Rightarrow> Settled (Resolved ())
           | Finished (Rejected e) \<Rightarrow> Settled (Rejected e)
           | _ \<Rightarrow> Pending))"

text \<open>
  Lines 104 to 116: where \<open>workerPromise\<close> is \<^verbatim>\<open>null\<close> the initialization begins, with a
  call of \<^verbatim>\<open>createWorker\<close>, and its promise is stored at once; any other value, a rejected
  promise included, is returned as it is.
\<close>

definition getWorker :: "manager \<Rightarrow> manager" where
  "getWorker s =
     (if workerPromise s = None
      then s\<lparr>workerPromise := Some Pending, createWorkerCalls := createWorkerCalls s + 1\<rparr>
      else s)"

text \<open>
  Lines 121 to 125, for a call whose \<^verbatim>\<open>await\<close> of line 119 has returned the worker. The
  new promise is chained to \<open>queue\<close> with a callback for fulfilment only: where \<open>queue\<close> is
  fulfilled the callback runs and calls \<^verbatim>\<open>worker.recognize(buffer)\<close>; where it is pending
  the callback waits; where it is rejected the callback never runs and the new promise is
  rejected with the same error.
\<close>

definition enqueue :: "buffer \<Rightarrow> manager \<Rightarrow> manager" where
  "enqueue b s =
     (case queuePromise s of
        Settled (Resolved u) \<Rightarrow>
          s\<lparr>chain := chain s @ [(b, Running)], recognized := recognized s @ [b]\<rparr>
      | Pending \<Rightarrow> s\<lparr>chain := chain s @ [(b, Waiting)]\<rparr>
      | Settled (Rejected e) \<Rightarrow>
          s\<lparr>chain := chain s @ [(b, Finished (Rejected e))],
            settled := settled s @ [(b, Rejected e)]\<rparr>)"

text \<open>Line 119 throws the error of the rejected \<open>workerPromise\<close>: the call is rejected.\<close>

definition failAwait :: "err \<Rightarrow> buffer \<Rightarrow> manager \<Rightarrow> manager" where
  "failAwait e b s = s\<lparr>settled := settled s @ [(b, Rejected e)]\<rparr>"

text \<open>A call \<open>runOcr(b)\<close>, as far as it runs before the next outside event.\<close>

definition runOcr :: "buffer \<Rightarrow> manager \<Rightarrow> manager" where
  "runOcr b s =
     (let s1 = getWorker s
      in case workerPromise s1 of
           None \<Rightarrow> s1
         | Some Pending \<Rightarrow> s1\<lparr>awaiting := awaiting s1 @ [b]\<rparr>
         | Some (Settled (Resolved u)) \<Rightarrow> enqueue b s1
         | Some (Settled (Rejected e)) \<Rightarrow> failAwait e b s1)"

text \<open>
  The initialization settles: every call suspended at line 119 goes on, oldest first, to
  line 121 or, where the initialization failed, to its rejection. The event cannot happen
  unless an initialization is pending.
\<close>

definition initSettled :: "unit settle \<Rightarrow> manager \<Rightarrow> manager option" where
  "initSettled out s =
     (if workerPromise s \<noteq> Some Pending then None
      else
        (let s1 = s\<lparr>workerPromise := Some (Settled out), awaiting := []\<rparr>
         in case out of
              Resolved u \<Rightarrow> Some (foldl (\<lambda>t b. enqueue b t) s1 (awaiting s))
            | Rejected e \<Rightarrow> Some (foldl (\<lambda>t b. failAwait e b t) s1 (awaiting s))))"

text \<open>
  What a settled promise of the chain does to the promises chained after it, given as
  the rest of the chain: fulfilled, it lets the callback of the next one run; rejected, it
  rejects the next one, which rejects the one after it, and so on. The result is the rest
  of the chain, the buffers given to \<^verbatim>\<open>worker.recognize\<close>, and the promises rejected.
\<close>

fun advance :: "ocrResult settle \<Rightarrow> (buffer \<times> linkState) list \<Rightarrow>
    (buffer \<times> linkState) list \<times> buffer list \<times> (buffer \<times> ocrResult settle) list" where
  "advance out [] = ([], [], [])"
| "advance (Resolved r) ((b, Waiting) # ls) = ((b, Running) # ls, [b], [])"
| "advance (Rejected e) ((b, Waiting) # ls) =
     (case advance (Rejected e) ls of
        (ls', started, rejected) \<Rightarrow>
          ((b, Finished (Rejected e)) # ls', started, (b, Rejected e) # rejected))"
| "advance out (l # ls) = (l # ls, [], [])"

text \<open>
  The \<^verbatim>\<open>recognize\<close> call in flight settles: the promise of its callback settles in the
  same way. \<open>None\<close> where no call is in flight.
\<close>

fun settleRunning :: "ocrResult settle \<Rightarrow> (buffer \<times> linkState) list \<Rightarrow>
    ((buffer \<times> linkState) list \<times> buffer list \<times> (buffer \<times> ocrResult settle) list) option" where
  "settleRunning out [] = None"
| "settleRunning out ((b, Running) # ls) =
     (case advance out ls of
        (ls', started, rejected) \<Rightarrow> Some ((b, Finished out) # ls', started, (b, out) # rejected))"
| "settleRunning out (l # ls) =
     (case settleRunning out ls of
        None \<Rightarrow> None
      | Some (ls', started, rejected) \<Rightarrow> Some (l # ls', started, rejected))"

definition recognizeSettled :: "ocrResult settle \<Rightarrow> manager \<Rightarrow> manager option" where
  "recognizeSettled out s =
     (case settleRunning out (chain s) of
        None \<Rightarrow> None
      | Some (c, started, rejected) \<Rightarrow>
          Some (s\<lparr>chain := c, recognized := recognized s @ started,
                  settled := settled s @ rejected\<rparr>))"

datatype event =
    RunOcr buffer
  | InitSettled "unit settle"
  | RecognizeSettled "ocrResult settle"

fun step :: "manager \<Rightarrow> event \<Rightarrow> manager option" where
  "step s (RunOcr b) = Some (runOcr b s)"
| "step s (InitSettled out) = initSettled out s"
| "step s (RecognizeSettled out) = recognizeSettled out s"

text \<open>A sequence of events from a state; \<open>None\<close> where one of them cannot happen.\<close>

fun run :: "manager \<Rightarrow> event list \<Rightarrow> manager option" where
  "run s [] = Some s"
| "run s (ev # evs) = (case step s ev of None \<Rightarrow> None | Some s' \<Rightarrow> run s' evs)"

text \<open>
  The buffers submitted by a sequence of events, the results of the recognitions that
  settle in it, whether the initialization succeeds in it, and whether nothing fails in it.
\<close>

fun submitted :: "event list \<Rightarrow> buffer list" where
  "submitted [] = []"
| "submitted (RunOcr b # evs) = b # submitted evs"
| "submitted (ev # evs) = submitted evs"

fun results :: "event list \<Rightarrow> ocrResult list" where
  "results [] = []"
| "results (RecognizeSettled (Resolved r) # evs) = r # results evs"
| "results (ev # evs) = results evs"

definition initDone :: "event list \<Rightarrow> bool" where
  "initDone evs = (InitSettled (Resolved ()) \<in> set evs)"

fun isFailure :: "event \<Rightarrow> bool" where
  "isFailure (InitSettled (Rejected e)) = True"
| "isFailure (RecognizeSettled (Rejected e)) = True"
| "isFailure ev = False"

definition failureFree :: "event list \<Rightarrow> bool" where
  "failureFree evs = (\<forall>ev \<in> set evs. \<not> isFailure ev)"

text \<open>The number of \<^verbatim>\<open>recognize\<close> calls in flight.\<close>

definition inFlight :: "manager \<Rightarrow> nat" where
  "inFlight s = length (filter (\<lambda>l. snd l = Running) (chain s))"

section \<open>Notions for the properties of the manager\<close>

text \<open>
  The part of the chain that is not settled: the first link awaits its \<^verbatim>\<open>recognize\<close> call and
  the callbacks of the others wait.
\<close>

fun active :: "buffer list \<Rightarrow> (buffer \<times> linkState) list" where
  "active [] = []"
| "active (w # ws) = (w, Running) # map (\<lambda>x. (x, Waiting)) ws"

text \<open>
  A settled link.
\<close>

fun isFinished :: "buffer \<times> linkState \<Rightarrow> bool" where
  "isFinished (b, Finished out) = True"
| "isFinished l = False"

text \<open>
  The shape of the chain: settled links, and then links not settled of which only the
  first is running.
\<close>

definition shaped :: "(buffer \<times> linkState) list \<Rightarrow> bool" where
  "shaped c = (\<exists>fs ws. c = fs @ active ws \<and> list_all isFinished fs)"

text \<open>
  What holds of every state that the events can reach: \<^verbatim>\<open>createWorker\<close> was called once if
  \<open>workerPromise\<close> is set and never otherwise; the chain is empty unless the
  initialization succeeded; calls are suspended at line 119 only while it is pending; and
  the chain has the shape above.
\<close>

definition wellFormed :: "manager \<Rightarrow> bool" where
  "wellFormed s =
     (createWorkerCalls s = (if workerPromise s = None then 0 else 1) \<and>
      (workerPromise s \<noteq> Some (Settled (Resolved ())) \<longrightarrow> chain s = []) \<and>
      (workerPromise s \<noteq> Some Pending \<longrightarrow> awaiting s = []) \<and>
      shaped (chain s))"

text \<open>
  The state while no initialization has settled: the calls of the given buffers are
  suspended at line 119 (for no call, the initial state).
\<close>

definition waitState :: "buffer list \<Rightarrow> manager" where
  "waitState bs =
     \<lparr>workerPromise = (if bs = [] then None else Some Pending),
      createWorkerCalls = (if bs = [] then 0 else 1),
      awaiting = bs, chain = [], recognized = [], settled = []\<rparr>"

text \<open>
  The state after a successful initialization in which the buffers \<open>ds\<close> have been
  recognized with the results \<open>rs\<close> and the buffers \<open>ws\<close> are left: the first of them, if
  any, is with \<^verbatim>\<open>recognize\<close>, the others wait.
\<close>

definition okState :: "buffer list \<Rightarrow> ocrResult list \<Rightarrow> buffer list \<Rightarrow> manager" where
  "okState ds rs ws =
     \<lparr>workerPromise = Some (Settled (Resolved ())), createWorkerCalls = 1, awaiting = [],
      chain = map (\<lambda>(b, r). (b, Finished (Resolved r))) (zip ds rs) @ active ws,
      recognized = ds @ take 1 ws,
      settled = zip ds (map Resolved rs)\<rparr>"

text \<open>
  The state after a failed initialization with the error \<open>e\<close>, when the calls of the
  buffers \<open>bs\<close> have been made: \<open>workerPromise\<close> still holds the rejected promise,
  \<^verbatim>\<open>createWorker\<close> was called once, nothing was recognized, and every call was rejected
  with \<open>e\<close>.
\<close>

definition failedState :: "err \<Rightarrow> buffer list \<Rightarrow> manager" where
  "failedState e bs =
     \<lparr>workerPromise = Some (Settled (Rejected e)), createWorkerCalls = 1, awaiting = [],
      chain = [], recognized = [], settled = map (\<lambda>b. (b, Rejected e)) bs\<rparr>"

text \<open>
  A state that the events \<open>evs\<close>, none of them a failure, lead to.
\<close>

definition tracks :: "event list \<Rightarrow> manager \<Rightarrow> bool" where
  "tracks evs s =
     (if initDone evs
      then (\<exists>ds ws. submitted evs = ds @ ws \<and> length ds = length (results evs) \<and>
              s = okState ds (results evs) ws)
      else results evs = [] \<and> s = waitState (submitted evs))"

section \<open>Facts about rounding to a double\<close>


lemma floor_numeral_div: "\<lfloor>numeral a / numeral b :: rat\<rfloor> = numeral a div numeral b"
  by (metis floor_divide_of_int_eq of_int_numeral)

lemma roundToDouble_eval:
  assumes x: "x \<noteq> 0" and e: "e = ilog2 \<bar>x\<bar>" and q: "q = max (e - 52) (- 1074)"
    and m: "m = roundHalfEven (scale2 \<bar>x\<bar> (- q))" and v: "v = scale2 (of_int m) q"
    and fin: "v < 2 ^ 1024"
  shows "roundToDouble x = Fin (if 0 < x then v else - v)"
proof -
  have "roundToDouble x =
      (if 2 ^ 1024 \<le> v then (if 0 < x then PosInf else NegInf) else Fin (if 0 < x then v else - v))"
    unfolding roundToDouble_def Let_def v m q e using x by (simp only: if_False)
  then show ?thesis using fin by simp
qed

lemmas rd_ev = ilog2_def scale2_def roundHalfEven_def floor_numeral_div expUp.simps expDown.simps

lemma expUp_le: "1 \<le> x \<Longrightarrow> 0 \<le> expUp x \<and> 2 powi (expUp x) \<le> x"
proof (induction x rule: expUp.induct)
  case (1 x)
  show ?case
  proof (cases "2 \<le> x")
    case True
    then have ih: "0 \<le> expUp (x / 2) \<and> 2 powi (expUp (x / 2)) \<le> x / 2"
      using "1.IH" by simp
    have eq: "expUp x = expUp (x / 2) + 1" using True by (simp add: expUp.simps[of x])
    have "(2::rat) powi (expUp (x / 2) + 1) = 2 powi (expUp (x / 2)) * 2"
      by (rule power_int_add_1) simp
    then show ?thesis using ih eq by simp
  next
    case False
    then have "expUp x = 0" by (simp add: expUp.simps[of x])
    then show ?thesis using "1.prems" by simp
  qed
qed

lemma expDown_le: "0 < x \<Longrightarrow> x < 1 \<Longrightarrow> 2 powi (expDown x) \<le> x"
proof (induction x rule: expDown.induct)
  case (1 x)
  have eq: "expDown x = expDown (2 * x) - 1" using "1.prems" by (simp add: expDown.simps[of x])
  have pw: "(2::rat) powi (expDown (2 * x) - 1) = 2 powi (expDown (2 * x)) / 2"
    by (simp add: power_int_diff)
  show ?case
  proof (cases "2 * x < 1")
    case True
    then have "2 powi (expDown (2 * x)) \<le> 2 * x" using "1.IH" "1.prems" by simp
    then show ?thesis using eq pw by simp
  next
    case False
    then have "expDown (2 * x) = 0" by (simp add: expDown.simps[of "2 * x"])
    then show ?thesis using eq False by simp
  qed
qed

lemma ilog2_le: "0 < a \<Longrightarrow> 2 powi (ilog2 a) \<le> a"
  by (simp add: ilog2_def expUp_le expDown_le)

lemma roundHalfEven_ge: "\<lfloor>y\<rfloor> \<le> roundHalfEven y"
  by (simp add: roundHalfEven_def Let_def)

lemma roundHalfEven_le: "roundHalfEven y \<le> \<lfloor>y\<rfloor> + 1"
  by (simp add: roundHalfEven_def Let_def)

lemma onGrid_scale2: "- 1074 \<le> q \<Longrightarrow> onGrid (scale2 (of_int m) q)"
proof -
  assume q: "- 1074 \<le> q"
  have "(2::rat) powi q = 2 powi (q + 1074) * 2 powi (- 1074)"
    by (subst power_int_add[symmetric]) simp_all
  also have "(2::rat) powi (q + 1074) = of_int (2 ^ nat (q + 1074))"
    using q by (simp add: power_int_def)
  finally have "scale2 (of_int m) q = of_int (m * 2 ^ nat (q + 1074)) * 2 powi (- 1074)"
    by (simp add: scale2_def)
  then show ?thesis unfolding onGrid_def by blast
qed

lemma onGrid_minus: "onGrid x \<Longrightarrow> onGrid (- x)"
  unfolding onGrid_def by (metis mult_minus_left of_int_minus)

lemma onGrid_diff: "onGrid x \<Longrightarrow> onGrid y \<Longrightarrow> onGrid (x - y)"
  unfolding onGrid_def by (metis left_diff_distrib of_int_diff)

lemma onGrid_0: "onGrid 0"
  unfolding onGrid_def by (rule exI[of _ 0]) simp

lemma onGrid_ge: "onGrid x \<Longrightarrow> 0 < x \<Longrightarrow> 2 powi (- 1074) \<le> x"
proof -
  assume "onGrid x" and pos: "0 < x"
  then obtain k :: int where k: "x = of_int k * 2 powi (- 1074)" unfolding onGrid_def by blast
  have p: "(0::rat) < 2 powi (- 1074)" by simp
  have "0 < (of_int k :: rat)" using pos k p by (simp add: zero_less_mult_iff)
  then have "1 \<le> (of_int k :: rat)" by simp
  then have "1 * 2 powi (- 1074) \<le> of_int k * (2::rat) powi (- 1074)"
    using p by (simp only: mult_le_cancel_right) simp
  then show ?thesis using k by simp
qed


lemma roundToDouble_nonzero:
  assumes x: "x \<noteq> 0" and e: "e = ilog2 \<bar>x\<bar>" and q: "q = max (e - 52) (- 1074)"
    and m: "m = roundHalfEven (scale2 \<bar>x\<bar> (- q))" and v: "v = scale2 (of_int m) q"
  shows "roundToDouble x =
      (if 2 ^ 1024 \<le> v then (if 0 < x then PosInf else NegInf) else Fin (if 0 < x then v else - v))"
  unfolding roundToDouble_def Let_def v m q e using x by (simp only: if_False)

lemma ulp_le:
  assumes a: "0 < a" and q: "q = max (ilog2 a - 52) (- 1074)"
  shows "2 powi q \<le> max a (2 powi (- 1074))"
proof (cases "ilog2 a - 52 \<le> - 1074")
  case True
  then have "q = - 1074" using q by simp
  then show ?thesis by simp
next
  case False
  then have qe: "q = ilog2 a - 52" using q by simp
  have "(2::rat) powi (ilog2 a - 52) \<le> 2 powi (ilog2 a)"
    by (rule power_int_increasing) simp_all
  also have "\<dots> \<le> a" using a by (rule ilog2_le)
  finally show ?thesis using qe by simp
qed

lemma significand_bounds:
  assumes a: "0 < a" and m: "m = roundHalfEven (scale2 a (- q))" and v: "v = scale2 (of_int m) q"
  shows "0 \<le> v" and "v \<le> a + 2 powi q" and "2 powi q \<le> a \<Longrightarrow> 0 < v"
proof -
  have p: "(0::rat) < 2 powi q" by simp
  have inv: "(2::rat) powi (- q) * 2 powi q = 1"
    by (subst power_int_add[symmetric]) simp_all
  define y where "y = scale2 a (- q)"
  have y0: "0 < y" using a by (simp add: y_def scale2_def)
  have ya: "y * 2 powi q = a"
    using inv by (simp add: y_def scale2_def mult.assoc)
  have m0: "0 \<le> m" using roundHalfEven_ge[of y] y0 m y_def
    by (metis order_trans zero_le_floor less_imp_le)
  show "0 \<le> v" using m0 by (simp add: v scale2_def)
  have "of_int m \<le> (of_int \<lfloor>y\<rfloor> + 1 :: rat)"
    using roundHalfEven_le[of y] m y_def by (metis of_int_1 of_int_add of_int_le_iff)
  also have "\<dots> \<le> y + 1" by simp
  finally have "of_int m * 2 powi q \<le> (y + 1) * 2 powi q"
    by (rule mult_right_mono) simp
  then show "v \<le> a + 2 powi q" using ya by (simp add: v scale2_def distrib_right)
  show "0 < v" if "2 powi q \<le> a"
  proof -
    have "1 * 2 powi q \<le> y * 2 powi q" using that ya by simp
    then have "1 \<le> y" using p by (rule mult_right_le_imp_le)
    then have "1 \<le> \<lfloor>y\<rfloor>" by (simp add: le_floor_iff)
    moreover have "\<lfloor>y\<rfloor> \<le> m" unfolding m y_def by (rule roundHalfEven_ge)
    ultimately have "1 \<le> m" by (rule order_trans)
    then have "0 < (of_int m :: rat)" by simp
    then show ?thesis using p by (simp add: v scale2_def)
  qed
qed

lemma roundToDouble_cases:
  "roundToDouble x = PosInf \<or> roundToDouble x = NegInf \<or> (\<exists>y. roundToDouble x = Fin y \<and> onGrid y)"
proof (cases "x = 0")
  case True
  then show ?thesis by (simp add: roundToDouble_def onGrid_0)
next
  case False
  define q where "q = max (ilog2 \<bar>x\<bar> - 52) (- 1074)"
  define m where "m = roundHalfEven (scale2 \<bar>x\<bar> (- q))"
  define v where "v = scale2 (of_int m) q"
  have g: "onGrid v" unfolding v_def by (rule onGrid_scale2) (simp add: q_def)
  have "roundToDouble x =
      (if 2 ^ 1024 \<le> v then (if 0 < x then PosInf else NegInf) else Fin (if 0 < x then v else - v))"
    using False by (rule roundToDouble_nonzero) (simp_all add: q_def m_def v_def)
  then show ?thesis using g onGrid_minus[OF g] by auto
qed

lemma roundToDouble_sgn:
  assumes g: "onGrid d"
  shows "num_sgn (roundToDouble d) = (if 0 < d then 1 else if d < 0 then - 1 else 0)"
proof (cases "d = 0")
  case True
  then show ?thesis by (simp add: roundToDouble_def)
next
  case False
  define q where "q = max (ilog2 \<bar>d\<bar> - 52) (- 1074)"
  define m where "m = roundHalfEven (scale2 \<bar>d\<bar> (- q))"
  define v where "v = scale2 (of_int m) q"
  have a: "0 < \<bar>d\<bar>" using False by simp
  have "onGrid \<bar>d\<bar>" using g onGrid_minus[OF g] by (simp add: abs_if)
  then have lo: "2 powi (- 1074) \<le> \<bar>d\<bar>" using a by (rule onGrid_ge)
  have "2 powi q \<le> max \<bar>d\<bar> (2 powi (- 1074))" using a q_def by (rule ulp_le)
  then have "2 powi q \<le> \<bar>d\<bar>" using lo by simp
  then have v: "0 < v" using significand_bounds(3)[OF a m_def v_def] by simp
  have "roundToDouble d =
      (if 2 ^ 1024 \<le> v then (if 0 < d then PosInf else NegInf) else Fin (if 0 < d then v else - v))"
    using False by (rule roundToDouble_nonzero) (simp_all add: q_def m_def v_def)
  then show ?thesis using v False by auto
qed

lemma roundToDouble_bounded:
  assumes b: "\<bar>x\<bar> \<le> B" and B1: "1 \<le> B" and B2: "B < 2 ^ 1023"
  shows "\<exists>y. roundToDouble x = Fin y \<and> onGrid y \<and> \<bar>y\<bar> \<le> 2 * B"
proof (cases "x = 0")
  case True
  then show ?thesis using B1 by (simp add: roundToDouble_def onGrid_0)
next
  case False
  define q where "q = max (ilog2 \<bar>x\<bar> - 52) (- 1074)"
  define m where "m = roundHalfEven (scale2 \<bar>x\<bar> (- q))"
  define v where "v = scale2 (of_int m) q"
  have a: "0 < \<bar>x\<bar>" using False by simp
  have g: "onGrid v" unfolding v_def by (rule onGrid_scale2) (simp add: q_def)
  have small: "(2::rat) powi (- 1074) \<le> 1"
    by (simp add: power_int_minus inverse_le_1_iff)
  have "2 powi q \<le> max \<bar>x\<bar> (2 powi (- 1074))" using a q_def by (rule ulp_le)
  then have "2 powi q \<le> B" using b B1 small by (simp add: max_def split: if_splits)
  moreover have "v \<le> \<bar>x\<bar> + 2 powi q" using significand_bounds(2)[OF a m_def v_def] .
  ultimately have vB: "v \<le> 2 * B" using b by simp
  have v0: "0 \<le> v" using significand_bounds(1)[OF a m_def v_def] .
  have "2 * B < 2 * 2 ^ 1023" using B2 by simp
  then have fin: "v < 2 ^ 1024" using vB by simp
  have "roundToDouble x =
      (if 2 ^ 1024 \<le> v then (if 0 < x then PosInf else NegInf) else Fin (if 0 < x then v else - v))"
    using False by (rule roundToDouble_nonzero) (simp_all add: q_def m_def v_def)
  then have "roundToDouble x = Fin (if 0 < x then v else - v)" using fin by simp
  then show ?thesis using g onGrid_minus[OF g] vB v0 by auto
qed

lemma roundHalfEven_err: "\<bar>of_int (roundHalfEven y) - y\<bar> \<le> 1 / 2"
proof -
  have "y - of_int \<lfloor>y\<rfloor> < 1" "0 \<le> y - of_int \<lfloor>y\<rfloor>" by linarith+
  then show ?thesis by (auto simp: roundHalfEven_def Let_def)
qed

lemma ulp_rel:
  assumes a: "0 < a" and q: "q = max (ilog2 a - 52) (- 1074)"
  shows "2 powi q \<le> max (a / 2 ^ 52) (2 powi (- 1074))"
proof (cases "ilog2 a - 52 \<le> - 1074")
  case True
  then have "q = - 1074" using q by simp
  then show ?thesis by simp
next
  case False
  then have qe: "q = ilog2 a - 52" using q by simp
  have "(2::rat) powi (ilog2 a - 52) = 2 powi (ilog2 a) / 2 ^ 52"
    by (simp add: power_int_diff)
  also have "\<dots> \<le> a / 2 ^ 52" using ilog2_le[OF a] by (simp add: divide_right_mono)
  finally show ?thesis using qe by simp
qed

lemma roundToDouble_error:
  assumes r: "roundToDouble x = Fin y"
  shows "\<bar>y - x\<bar> \<le> (\<bar>x\<bar> + 1) / 2 ^ 53"
proof (cases "x = 0")
  case True
  then show ?thesis using r by (simp add: roundToDouble_def)
next
  case False
  define q where "q = max (ilog2 \<bar>x\<bar> - 52) (- 1074)"
  define m where "m = roundHalfEven (scale2 \<bar>x\<bar> (- q))"
  define v where "v = scale2 (of_int m) q"
  have a: "0 < \<bar>x\<bar>" using False by simp
  have p: "(0::rat) < 2 powi q" by simp
  have inv: "(2::rat) powi (- q) * 2 powi q = 1"
    by (subst power_int_add[symmetric]) simp_all
  define s where "s = scale2 \<bar>x\<bar> (- q)"
  have sx: "s * 2 powi q = \<bar>x\<bar>" using inv by (simp add: s_def scale2_def mult.assoc)
  have "\<bar>of_int m - s\<bar> \<le> 1 / 2" unfolding m_def s_def by (rule roundHalfEven_err)
  then have "\<bar>of_int m - s\<bar> * 2 powi q \<le> 1 / 2 * 2 powi q"
    by (rule mult_right_mono) simp
  moreover have "\<bar>of_int m - s\<bar> * 2 powi q = \<bar>v - \<bar>x\<bar>\<bar>"
  proof -
    have "\<bar>of_int m - s\<bar> * 2 powi q = \<bar>(of_int m - s) * 2 powi q\<bar>"
      by (simp add: abs_mult)
    also have "(of_int m - s) * 2 powi q = v - \<bar>x\<bar>"
      using sx by (simp add: v_def scale2_def left_diff_distrib)
    finally show ?thesis .
  qed
  ultimately have e1: "\<bar>v - \<bar>x\<bar>\<bar> \<le> 2 powi q / 2" by simp
  have small: "(2::rat) powi (- 1074) \<le> 1 / 2 ^ 52"
    by (simp add: power_int_minus field_simps)
  have "2 powi q \<le> max (\<bar>x\<bar> / 2 ^ 52) (2 powi (- 1074))" using a q_def by (rule ulp_rel)
  also have "\<dots> \<le> (\<bar>x\<bar> + 1) / 2 ^ 52" using small by (simp add: add_divide_distrib)
  finally have e2: "\<bar>v - \<bar>x\<bar>\<bar> \<le> (\<bar>x\<bar> + 1) / 2 ^ 53" using e1 by simp
  have "roundToDouble x =
      (if 2 ^ 1024 \<le> v then (if 0 < x then PosInf else NegInf) else Fin (if 0 < x then v else - v))"
    using False by (rule roundToDouble_nonzero) (simp_all add: q_def m_def v_def)
  then have y: "y = (if 0 < x then v else - v)" using r by (auto split: if_splits)
  show ?thesis
  proof (cases "0 < x")
    case True
    then show ?thesis using e2 y by simp
  next
    case False
    then have "y - x = - (v - \<bar>x\<bar>)" using y by simp
    then show ?thesis using e2 by (simp only: abs_minus)
  qed
qed

lemma expUp_lt: "1 \<le> x \<Longrightarrow> x < 2 powi (expUp x + 1)"
proof (induction x rule: expUp.induct)
  case (1 x)
  show ?case
  proof (cases "2 \<le> x")
    case True
    then have ih: "x / 2 < 2 powi (expUp (x / 2) + 1)" using "1.IH" by simp
    have eq: "expUp x = expUp (x / 2) + 1" using True by (simp add: expUp.simps[of x])
    have "(2::rat) powi (expUp (x / 2) + 1 + 1) = 2 powi (expUp (x / 2) + 1) * 2"
      by (rule power_int_add_1) simp
    then show ?thesis using ih eq by simp
  next
    case False
    then have "expUp x = 0" by (simp add: expUp.simps[of x])
    then show ?thesis using False by simp
  qed
qed

lemma expDown_lt: "0 < x \<Longrightarrow> x < 1 \<Longrightarrow> x < 2 powi (expDown x + 1)"
proof (induction x rule: expDown.induct)
  case (1 x)
  have eq: "expDown x = expDown (2 * x) - 1" using "1.prems" by (simp add: expDown.simps[of x])
  show ?case
  proof (cases "2 * x < 1")
    case True
    then have "2 * x < 2 powi (expDown (2 * x) + 1)" using "1.IH" "1.prems" by simp
    moreover have "(2::rat) powi (expDown (2 * x) - 1 + 1 + 1) = 2 powi (expDown (2 * x) - 1 + 1) * 2"
      by (rule power_int_add_1) simp
    ultimately show ?thesis using eq by simp
  next
    case False
    then have "expDown (2 * x) = 0" by (simp add: expDown.simps[of "2 * x"])
    then show ?thesis using eq "1.prems" by simp
  qed
qed

lemma ilog2_lt: "0 < a \<Longrightarrow> a < 2 powi (ilog2 a + 1)"
  by (simp add: ilog2_def expUp_lt expDown_lt)

lemma ilog2_unique:
  assumes a: "0 < a" and lo: "2 powi e \<le> a" and hi: "a < 2 powi (e + 1)"
  shows "ilog2 a = e"
proof (rule antisym)
  show "ilog2 a \<le> e"
  proof (rule ccontr)
    assume "\<not> ilog2 a \<le> e"
    then have "e + 1 \<le> ilog2 a" by simp
    then have "(2::rat) powi (e + 1) \<le> 2 powi (ilog2 a)" by (intro power_int_increasing) simp_all
    also have "\<dots> \<le> a" using a by (rule ilog2_le)
    finally show False using hi by simp
  qed
  show "e \<le> ilog2 a"
  proof (rule ccontr)
    assume "\<not> e \<le> ilog2 a"
    then have "ilog2 a + 1 \<le> e" by simp
    then have "(2::rat) powi (ilog2 a + 1) \<le> 2 powi e" by (intro power_int_increasing) simp_all
    also have "\<dots> \<le> a" by (rule lo)
    finally show False using ilog2_lt[OF a] by simp
  qed
qed

lemma roundToDouble_large:
  assumes x: "0 < x" and lo: "2 ^ e \<le> x" and hi: "x < 2 ^ Suc e" and e: "52 \<le> e"
    and m: "m = roundHalfEven (x / 2 ^ (e - 52))" and v: "v = of_int m * 2 ^ (e - 52)"
  shows "roundToDouble x = (if 2 ^ 1024 \<le> v then PosInf else Fin v)"
proof -
  have ax: "\<bar>x\<bar> = x" using x by simp
  have "ilog2 x = int e"
    using x by (rule ilog2_unique) (use lo hi in \<open>simp_all add: power_int_add\<close>)
  then have q: "max (ilog2 x - 52) (- 1074) = int (e - 52)" using e by simp
  have s1: "scale2 x (- int (e - 52)) = x / 2 ^ (e - 52)"
    by (simp add: scale2_def power_int_minus field_simps)
  have s2: "scale2 (of_int m) (int (e - 52)) = v" by (simp add: scale2_def v)
  have "roundToDouble x =
      (if 2 ^ 1024 \<le> v then (if 0 < x then PosInf else NegInf) else Fin (if 0 < x then v else - v))"
    unfolding roundToDouble_def Let_def ax q s1 m[symmetric] s2 using x by simp
  then show ?thesis using x by simp
qed

lemma roundToDouble_pow2:
  assumes b: "\<bar>x\<bar> \<le> 2 ^ n" and n: "n < 1023"
  shows "\<exists>y. roundToDouble x = Fin y \<and> \<bar>y\<bar> \<le> 2 ^ Suc n"
proof -
  have "(2::rat) ^ n < 2 ^ 1023" using n by (rule power_strict_increasing) simp
  moreover have "(1::rat) \<le> 2 ^ n" by simp
  ultimately show ?thesis using roundToDouble_bounded[OF b] by auto
qed

section \<open>Properties of the number token normalizer\<close>

lemmas str_eval =
  normalizeNumberToken_def ustr_def trim_def isSpace_def isNumChar_def isDigit_def
  DOT_def COMMA_def ZERO_def includesChar_def lastIndexOf_def join_def slice_def sliceFrom_def
  leadingZerosThenDigit_def startsWithZeroDot_def stripLeadingZeros_def normalizeBoth_def
  normalizeSingle_def Let_def

lemma numChar_not_space: "isNumChar c \<Longrightarrow> \<not> isSpace c"
  by (auto simp: isNumChar_def isSpace_def isDigit_def DOT_def COMMA_def)

lemma filter_dropWhile_disjoint:
  "(\<And>c. Q c \<Longrightarrow> \<not> P c) \<Longrightarrow> filter P (dropWhile Q xs) = filter P xs"
  by (induction xs) auto

lemma filter_trim: "filter isNumChar (trim s) = filter isNumChar s"
proof -
  have a: "\<And>c. isSpace c \<Longrightarrow> \<not> isNumChar c" using numChar_not_space by blast
  have "filter isNumChar (trim s) = rev (filter isNumChar (dropWhile isSpace (rev (dropWhile isSpace s))))"
    by (simp add: trim_def rev_filter)
  also have "\<dots> = rev (filter isNumChar (rev (dropWhile isSpace s)))"
    by (simp only: filter_dropWhile_disjoint[of isSpace isNumChar, OF a])
  also have "\<dots> = filter isNumChar (dropWhile isSpace s)" by (simp add: rev_filter)
  also have "\<dots> = filter isNumChar s"
    by (simp only: filter_dropWhile_disjoint[of isSpace isNumChar, OF a])
  finally show ?thesis .
qed

lemma filter_strip:
  "filter isNumChar (filter (\<lambda>c. \<not> isSpace c) (trim s)) = filter isNumChar s"
proof -
  have "(\<lambda>c. \<not> isSpace c \<and> isNumChar c) = isNumChar" using numChar_not_space by auto
  then have "filter isNumChar (filter (\<lambda>c. \<not> isSpace c) (trim s)) = filter isNumChar (trim s)"
    by simp
  then show ?thesis by (simp only: filter_trim)
qed

lemma normalizeNumberToken_alt:
  "normalizeNumberToken s =
     (let t = filter isNumChar s
      in if t = [] then []
         else dropZeros (if DOT \<in> set t \<and> COMMA \<in> set t then normalizeBoth t
                         else normalizeSingle t))"
  unfolding normalizeNumberToken_def Let_def filter_strip dropZeros_def includesChar_def
  by simp

lemma split_not_Nil: "split t c \<noteq> []"
  by (induction t) (auto split: list.splits)

lemma split_no_sep: "c \<notin> set t \<Longrightarrow> split t c = [t]"
  by (induction t) auto

lemma split_append:
  "split (xs @ c # ys) c = split xs c @ split ys c"
proof (induction xs)
  case Nil
  show ?case by simp
next
  case (Cons x xs)
  show ?case
  proof (cases "x = c")
    case True
    then show ?thesis using Cons by simp
  next
    case False
    obtain p ps where sp: "split xs c = p # ps" using split_not_Nil[of xs c] by (cases "split xs c") auto
    show ?thesis using False Cons sp by simp
  qed
qed

lemma concat_split: "concat (split t c) = filter (\<lambda>x. x \<noteq> c) t"
proof (induction t)
  case Nil
  show ?case by simp
next
  case (Cons x t)
  obtain p ps where sp: "split t c = p # ps" using split_not_Nil[of t c] by (cases "split t c") auto
  show ?case using Cons sp by auto
qed

lemma length_split: "length (split t c) = Suc (length (filter (\<lambda>x. x = c) t))"
proof (induction t)
  case Nil
  show ?case by simp
next
  case (Cons x t)
  obtain p ps where sp: "split t c = p # ps" using split_not_Nil[of t c] by (cases "split t c") auto
  show ?case using Cons sp by auto
qed

lemma last_occurrence:
  "c \<in> set t \<Longrightarrow> \<exists>xs ys. t = xs @ c # ys \<and> c \<notin> set ys"
  by (metis split_list_last)

lemma lastIndexFrom_absent: "c \<notin> set t \<Longrightarrow> lastIndexFrom i t c = - 1"
  by (induction t arbitrary: i) (auto simp: Let_def)

lemma lastIndexFrom_last:
  "0 \<le> i \<Longrightarrow> c \<notin> set ys \<Longrightarrow> lastIndexFrom i (xs @ c # ys) c = i + int (length xs)"
proof (induction xs arbitrary: i)
  case Nil
  then show ?case by (simp add: lastIndexFrom_absent Let_def)
next
  case (Cons x xs)
  have "lastIndexFrom (i + 1) (xs @ c # ys) c = i + 1 + int (length xs)"
    using Cons.prems by (intro Cons.IH) simp_all
  then show ?case using Cons.prems by (simp add: Let_def)
qed

lemma lastIndexOf_last:
  "c \<notin> set ys \<Longrightarrow> lastIndexOf (xs @ c # ys) c = int (length xs)"
  using lastIndexFrom_last[of 0 c ys xs] by (simp add: lastIndexOf_def)

lemma canonicalI: "COMMA \<notin> set r \<Longrightarrow> length (filter (\<lambda>c. c = DOT) r) \<le> 1 \<Longrightarrow> canonical r"
  by (simp add: canonical_def)

lemma DOT_not_COMMA: "DOT \<noteq> COMMA"
  by (simp add: DOT_def COMMA_def)

lemma filter_eq_Nil_absent: "c \<notin> set ys \<Longrightarrow> filter (\<lambda>x. x = c) ys = []"
  by (induction ys) auto

lemma normalizeSingle_canonical: "canonical (normalizeSingle t)"
proof -
  define t1 where "t1 = map (\<lambda>c. if c = COMMA then DOT else c) t"
  have nc: "COMMA \<notin> set t1" using DOT_not_COMMA by (auto simp: t1_def)
  show ?thesis
  proof (cases "2 < length (split t1 DOT)")
    case False
    then have "normalizeSingle t = t1" by (simp add: normalizeSingle_def Let_def t1_def)
    moreover have "length (filter (\<lambda>c. c = DOT) t1) \<le> 1" using False by (simp add: length_split)
    ultimately show ?thesis using nc by (simp add: canonical_def)
  next
    case True
    then have "DOT \<in> set t1"
      by (intro ccontr[of "DOT \<in> set t1"]) (simp add: length_split filter_eq_Nil_absent)
    then obtain xs ys where t1: "t1 = xs @ DOT # ys" and ys: "DOT \<notin> set ys"
      by (rule split_list_last[THEN exE]) auto
    have sp: "split t1 DOT = split xs DOT @ [ys]"
      unfolding t1 by (simp add: split_append split_no_sep[OF ys])
    have "normalizeSingle t = join (butlast (split t1 DOT)) @ [DOT] @ last (split t1 DOT)"
      using True by (simp add: normalizeSingle_def Let_def t1_def)
    then have r: "normalizeSingle t = filter (\<lambda>x. x \<noteq> DOT) xs @ [DOT] @ ys"
      by (simp add: sp join_def concat_split)
    have "COMMA \<notin> set (normalizeSingle t)" using nc DOT_not_COMMA unfolding r t1 by auto
    moreover have "filter (\<lambda>c. c = DOT) (normalizeSingle t) = [DOT]"
      unfolding r using ys by (simp add: filter_eq_Nil_absent)
    ultimately show ?thesis by (simp add: canonical_def)
  qed
qed

lemma normalizeSingle_id:
  assumes "canonical r"
  shows "normalizeSingle r = r"
proof -
  have "map (\<lambda>c. if c = COMMA then DOT else c) r = r"
    using assms by (intro map_idI) (auto simp: canonical_def)
  moreover have "\<not> 2 < length (split r DOT)" using assms by (simp add: length_split canonical_def)
  ultimately show ?thesis by (simp add: normalizeSingle_def Let_def)
qed

lemma takeWhile_dropWhile: "takeWhile P (dropWhile P xs) = []"
  by (induction xs) auto

lemma dropZeros_idem: "dropZeros (dropZeros t) = dropZeros t"
proof (cases "leadingZerosThenDigit t \<and> \<not> startsWithZeroDot t")
  case True
  then have r: "dropZeros t = dropWhile (\<lambda>c. c = ZERO) t"
    by (simp add: dropZeros_def stripLeadingZeros_def)
  have "\<not> leadingZerosThenDigit (dropWhile (\<lambda>c. c = ZERO) t)"
    by (simp add: leadingZerosThenDigit_def Let_def takeWhile_dropWhile)
  then show ?thesis unfolding r by (simp add: dropZeros_def)
next
  case False
  then have "dropZeros t = t" by (auto simp: dropZeros_def)
  then show ?thesis by simp
qed

lemma dropZeros_cases: "dropZeros t = t \<or> dropZeros t = dropWhile (\<lambda>c. c = ZERO) t"
  by (simp add: dropZeros_def stripLeadingZeros_def)

lemma canonical_dropWhile: "canonical t \<Longrightarrow> canonical (dropWhile P t)"
proof -
  assume c: "canonical t"
  have "t = takeWhile P t @ dropWhile P t" by simp
  then have "filter (\<lambda>c. c = DOT) t =
      filter (\<lambda>c. c = DOT) (takeWhile P t) @ filter (\<lambda>c. c = DOT) (dropWhile P t)"
    by (metis filter_append)
  then have "length (filter (\<lambda>c. c = DOT) (dropWhile P t)) \<le> length (filter (\<lambda>c. c = DOT) t)"
    by simp
  moreover have "set (dropWhile P t) \<subseteq> set t" by (rule set_dropWhileD[THEN subsetI])
  ultimately show ?thesis using c unfolding canonical_def by auto
qed

lemma canonical_dropZeros: "canonical t \<Longrightarrow> canonical (dropZeros t)"
  using dropZeros_cases[of t] canonical_dropWhile by auto

lemma set_dropZeros: "set (dropZeros t) \<subseteq> set t"
  using dropZeros_cases[of t] set_dropWhileD by fastforce

lemma set_normalizeSingle: "set (normalizeSingle t) \<subseteq> insert DOT (set t)"
proof -
  define t1 where "t1 = map (\<lambda>c. if c = COMMA then DOT else c) t"
  define parts where "parts = split t1 DOT"
  have s1: "set t1 \<subseteq> insert DOT (set t)" by (auto simp: t1_def)
  have c: "set (concat parts) \<subseteq> set t1" by (auto simp: parts_def concat_split)
  have "last parts \<in> set parts" unfolding parts_def by (rule last_in_set) (rule split_not_Nil)
  then have "set (last parts) \<subseteq> set (concat parts)" by auto
  then have l: "set (last parts) \<subseteq> set t1" using c by (rule subset_trans)
  have "set (concat (butlast parts)) \<subseteq> set (concat parts)" by (auto dest: in_set_butlastD)
  then have b: "set (concat (butlast parts)) \<subseteq> set t1" using c by (rule subset_trans)
  have eq: "normalizeSingle t =
      (if 2 < length parts then concat (butlast parts) @ [DOT] @ last parts else t1)"
    by (simp add: normalizeSingle_def Let_def join_def t1_def parts_def)
  show ?thesis unfolding eq using l b s1 by auto
qed

lemma set_join_split: "set (join (split t c)) \<subseteq> set t"
  by (auto simp: join_def concat_split)

lemma set_replaced:
  "set u \<subseteq> set t \<Longrightarrow>
   set (if b then slice u 0 n @ [DOT] @ sliceFrom u m else u) \<subseteq> insert DOT (set t)"
  by (auto simp: slice_def sliceFrom_def dest: in_set_takeD in_set_dropD)

lemma set_normalizeBoth: "set (normalizeBoth t) \<subseteq> insert DOT (set t)"
  unfolding normalizeBoth_def Let_def by (rule set_replaced) (rule set_join_split)

lemma numChar_DOT: "isNumChar DOT"
  by (simp add: isNumChar_def)

lemma normalize_numChars: "c \<in> set (normalizeNumberToken s) \<Longrightarrow> isNumChar c"
proof -
  assume c: "c \<in> set (normalizeNumberToken s)"
  define t where "t = filter isNumChar s"
  have t: "\<And>x. x \<in> set t \<Longrightarrow> isNumChar x" by (simp add: t_def)
  from c have "c \<in> set (dropZeros (if DOT \<in> set t \<and> COMMA \<in> set t then normalizeBoth t
                         else normalizeSingle t))"
    by (auto simp: normalizeNumberToken_alt Let_def t_def split: if_splits)
  then have "c \<in> insert DOT (set t)"
    using set_dropZeros set_normalizeBoth[of t] set_normalizeSingle[of t]
    by (auto split: if_splits)
  then show ?thesis using t numChar_DOT by auto
qed

lemma normalize_is_dropZeros:
  "normalizeNumberToken s \<noteq> [] \<Longrightarrow> \<exists>x. normalizeNumberToken s = dropZeros x"
  by (auto simp: normalizeNumberToken_alt Let_def split: if_splits)

lemma normalizeNumberToken_cases:
  assumes "t = filter isNumChar s"
  shows "normalizeNumberToken s =
     (if t = [] then []
      else dropZeros (if DOT \<in> set t \<and> COMMA \<in> set t then normalizeBoth t
                      else normalizeSingle t))"
  unfolding assms by (simp add: normalizeNumberToken_alt Let_def)

text \<open>
  Where the normal form of a token is canonical, a second pass leaves it as it is.
\<close>

theorem normalize_idempotent_canonical:
  assumes "canonical (normalizeNumberToken s)"
  shows "normalizeNumberToken (normalizeNumberToken s) = normalizeNumberToken s"
proof (cases "normalizeNumberToken s = []")
  case True
  then show ?thesis by (simp add: normalizeNumberToken_alt)
next
  case False
  define r where "r = normalizeNumberToken s"
  have f: "r = filter isNumChar r"
    unfolding r_def using normalize_numChars by (simp add: filter_id_conv)
  have nc: "COMMA \<notin> set r" using assms by (simp add: canonical_def r_def)
  have ne: "r \<noteq> []" using False by (simp add: r_def)
  obtain x where x: "r = dropZeros x" using normalize_is_dropZeros[OF False] r_def by auto
  have "normalizeNumberToken r = dropZeros (normalizeSingle r)"
    unfolding normalizeNumberToken_cases[OF f] using ne nc by simp
  also have "\<dots> = dropZeros r" using assms by (simp add: normalizeSingle_id r_def)
  also have "\<dots> = r" unfolding x by (rule dropZeros_idem)
  finally show ?thesis by (simp add: r_def)
qed

text \<open>
  A token in which the point and the comma do not both occur has a canonical normal form.
\<close>

theorem normalize_single_kind_canonical:
  assumes "\<not> (DOT \<in> set s \<and> COMMA \<in> set s)"
  shows "canonical (normalizeNumberToken s)"
proof -
  define t where "t = filter isNumChar s"
  have nb: "\<not> (DOT \<in> set t \<and> COMMA \<in> set t)" using assms by (auto simp: t_def)
  have "normalizeNumberToken s = (if t = [] then [] else dropZeros (normalizeSingle t))"
    unfolding normalizeNumberToken_cases[OF t_def] using nb by auto
  moreover have "canonical []" by (simp add: canonical_def)
  ultimately show ?thesis by (simp add: canonical_dropZeros normalizeSingle_canonical)
qed

lemma filter_filter_other:
  "d \<noteq> c \<Longrightarrow> filter (\<lambda>x. x = d) (filter (\<lambda>x. x \<noteq> c) t) = filter (\<lambda>x. x = d) t"
  by (induction t) auto

lemma filter_filter_holds:
  "P d \<Longrightarrow> filter (\<lambda>x. x = d) (filter P t) = filter (\<lambda>x. x = d) t"
  by (induction t) auto

lemma single_occurrence:
  assumes "length (filter (\<lambda>x. x = d) u) = 1"
  shows "\<exists>xs ys. u = xs @ d # ys \<and> d \<notin> set xs \<and> d \<notin> set ys"
proof -
  have "d \<in> set u"
    using assms by (intro ccontr[of "d \<in> set u"]) (simp add: filter_eq_Nil_absent)
  then obtain xs ys where u: "u = xs @ d # ys" and ys: "d \<notin> set ys"
    by (rule split_list_last[THEN exE]) auto
  have "length (filter (\<lambda>x. x = d) xs) = 0"
    using assms ys unfolding u by (simp add: filter_eq_Nil_absent)
  then have "d \<notin> set xs" by (auto simp: filter_empty_conv)
  then show ?thesis using u ys by blast
qed

lemma normalizeBoth_eq:
  "normalizeBoth t =
     (let decSep = decimalKind t;
          thouSep = (if decSep = DOT then COMMA else DOT);
          t1 = filter (\<lambda>x. x \<noteq> thouSep) t;
          idx = lastIndexOf t1 decSep
      in if idx \<noteq> - 1 then take (nat idx) t1 @ [DOT] @ drop (nat idx + 1) t1 else t1)"
  by (simp add: normalizeBoth_def decimalKind_def Let_def join_def concat_split slice_def
      sliceFrom_def)

lemma normalizeBoth_canonical:
  assumes single: "length (filter (\<lambda>x. x = decimalKind t) t) = 1"
  shows "canonical (normalizeBoth t)"
proof -
  define d where "d = decimalKind t"
  define c where "c = (if d = DOT then COMMA else DOT)"
  define t1 where "t1 = filter (\<lambda>x. x \<noteq> c) t"
  have dk: "d = DOT \<or> d = COMMA" by (simp add: d_def decimalKind_def)
  have dc: "d \<noteq> c" using dk DOT_not_COMMA by (auto simp: c_def)
  have both: "{d, c} = {DOT, COMMA}" using dk DOT_not_COMMA by (auto simp: c_def)
  have "filter (\<lambda>x. x = d) t1 = filter (\<lambda>x. x = d) t"
    unfolding t1_def using dc by (rule filter_filter_other)
  then have "length (filter (\<lambda>x. x = d) t1) = 1" using single by (simp only: d_def)
  from single_occurrence[OF this]
  obtain xs ys where t1: "t1 = xs @ d # ys" and xs: "d \<notin> set xs" and ys: "d \<notin> set ys"
    by blast
  have noc: "c \<notin> set t1" by (simp add: t1_def)
  then have cxs: "c \<notin> set xs" "c \<notin> set ys" by (simp_all add: t1)
  have idx: "lastIndexOf t1 d = int (length xs)" unfolding t1 using ys by (rule lastIndexOf_last)
  have "normalizeBoth t = take (length xs) t1 @ [DOT] @ drop (length xs + 1) t1"
    unfolding normalizeBoth_eq Let_def
    by (simp add: idx flip: d_def c_def t1_def)
  then have r: "normalizeBoth t = xs @ [DOT] @ ys" by (simp add: t1)
  have "DOT \<notin> set xs" "DOT \<notin> set ys" "COMMA \<notin> set xs" "COMMA \<notin> set ys"
    using xs ys cxs both by auto
  then show ?thesis unfolding r using DOT_not_COMMA
    by (simp add: canonical_def filter_eq_Nil_absent)
qed

text \<open>
  The normal form is canonical for every token but those in which both separators occur
  and the kind that occurs last occurs more than once.
\<close>

theorem normalize_canonical_unless_repeated:
  assumes "DOT \<in> set s \<and> COMMA \<in> set s \<longrightarrow>
      length (filter (\<lambda>x. x = decimalKind (filter isNumChar s)) s) = 1"
  shows "canonical (normalizeNumberToken s)"
proof (cases "DOT \<in> set s \<and> COMMA \<in> set s")
  case False
  then show ?thesis by (rule normalize_single_kind_canonical)
next
  case True
  define t where "t = filter isNumChar s"
  have dk: "isNumChar (decimalKind t)"
    by (simp add: decimalKind_def isNumChar_def)
  have "filter (\<lambda>x. x = decimalKind t) (filter isNumChar s) = filter (\<lambda>x. x = decimalKind t) s"
    using dk by (rule filter_filter_holds)
  then have "filter (\<lambda>x. x = decimalKind t) t = filter (\<lambda>x. x = decimalKind t) s"
    by (simp only: t_def)
  moreover have "length (filter (\<lambda>x. x = decimalKind t) s) = 1"
    using assms True by (simp only: t_def)
  ultimately have single: "length (filter (\<lambda>x. x = decimalKind t) t) = 1" by simp
  have b: "DOT \<in> set t \<and> COMMA \<in> set t" using True by (simp add: t_def isNumChar_def)
  then have "normalizeNumberToken s = dropZeros (normalizeBoth t)"
    unfolding normalizeNumberToken_cases[OF t_def] by auto
  then show ?thesis using normalizeBoth_canonical[OF single] by (simp add: canonical_dropZeros)
qed

text \<open>
  C4, as the code has it: the four price tokens normalize as the specification says, and
  the token \<^verbatim>\<open>..\<close>, which is all separators, normalizes to \<^verbatim>\<open>.\<close> (the test of line 31
  sees a string that is not empty, and line 53 joins the pieces around the last point).
\<close>

theorem normalize_examples:
  "normalizeNumberToken (ustr ''1.234,56'') = ustr ''1234.56'' \<and>
   normalizeNumberToken (ustr ''1,234.56'') = ustr ''1234.56'' \<and>
   normalizeNumberToken (ustr ''3,49'') = ustr ''3.49'' \<and>
   normalizeNumberToken (ustr ''0,99'') = ustr ''0.99'' \<and>
   normalizeNumberToken (ustr ''..'') = ustr ''.''"
  by (simp add: str_eval)

text \<open>
  C4 as the specification states it fails in its last part: the normal form of \<^verbatim>\<open>..\<close> is
  not the empty string.
\<close>

theorem normalize_all_separators_counterexample:
  "normalizeNumberToken (ustr ''..'') \<noteq> ustr ''''"
  by (simp add: str_eval)

text \<open>
  C5 fails at a token in which both separators occur and the later kind occurs more than
  once: only the other kind is deleted (line 42) and only the last occurrence is replaced
  (line 45), so \<^verbatim>\<open>1.2,3.4\<close> keeps two points and \<^verbatim>\<open>1,2.3,4\<close> keeps a comma. For every
  other token the normal form is canonical (\<open>normalize_canonical_unless_repeated\<close>).
\<close>

theorem normalize_not_canonical:
  "normalizeNumberToken (ustr ''1.2,3.4'') = ustr ''1.23.4'' \<and>
   normalizeNumberToken (ustr ''1,2.3,4'') = ustr ''1,23.4''"
  by (simp add: str_eval)

text \<open>
  C2 fails at the same token: its normal form \<^verbatim>\<open>1.23.4\<close> has one kind of separator, so a
  second pass takes lines 48 to 54 and deletes the first point. Where the normal form is
  canonical a second pass changes nothing (\<open>normalize_idempotent_canonical\<close>).
\<close>

theorem normalize_not_idempotent:
  "normalizeNumberToken (ustr ''1.2,3.4'') \<noteq> [] \<and>
   normalizeNumberToken (normalizeNumberToken (ustr ''1.2,3.4'')) = ustr ''123.4'' \<and>
   normalizeNumberToken (normalizeNumberToken (ustr ''1.2,3.4''))
     \<noteq> normalizeNumberToken (ustr ''1.2,3.4'')"
  by (simp add: str_eval)

section \<open>The specification's example, evaluated\<close>

lemmas ext_eval = matchAt_def isTokenChar_def digitAt_def parseFloat_def parseUnsigned_def decimalLiteral_def
  startsWith_def exponentPart_def digitsVal_def digitVal_def scale10_def fixed2_def
  endsWithDecimals_def scoreOf_def compareFn_def sortCandidates_def extractAmounts_def
  num_le_def num_sub_def Math_min_def digitsOf.simps floor_numeral_div

text \<open>The doubles that the example needs, each the rounding of a rational number.\<close>

lemma rd_one_fifth: "roundToDouble (1 / 5) = Fin (3602879701896397 / 18014398509481984)"
proof -
  have "roundToDouble (1 / 5) = Fin (if 0 < (1 / 5 :: rat) then 3602879701896397 / 18014398509481984 else - (3602879701896397 / 18014398509481984))"
    by (rule roundToDouble_eval[where e = "-3" and q = "-55" and m = 7205759403792794]) (simp_all add: rd_ev)
  then show ?thesis by simp
qed

lemma rd_2: "roundToDouble (2) = Fin (2)"
proof -
  have "roundToDouble (2) = Fin (if 0 < (2 :: rat) then 2 else - (2))"
    by (rule roundToDouble_eval[where e = 1 and q = "-51" and m = 4503599627370496]) (simp_all add: rd_ev)
  then show ?thesis by simp
qed

lemma rd_4: "roundToDouble (4) = Fin (4)"
proof -
  have "roundToDouble (4) = Fin (if 0 < (4 :: rat) then 4 else - (4))"
    by (rule roundToDouble_eval[where e = 2 and q = "-50" and m = 4503599627370496]) (simp_all add: rd_ev)
  then show ?thesis by simp
qed

lemma rd_12: "roundToDouble (12) = Fin (12)"
proof -
  have "roundToDouble (12) = Fin (if 0 < (12 :: rat) then 12 else - (12))"
    by (rule roundToDouble_eval[where e = 3 and q = "-49" and m = 6755399441055744]) (simp_all add: rd_ev)
  then show ?thesis by simp
qed

lemma rd_two_fifths: "roundToDouble (2 / 5) = Fin (3602879701896397 / 9007199254740992)"
proof -
  have "roundToDouble (2 / 5) = Fin (if 0 < (2 / 5 :: rat) then 3602879701896397 / 9007199254740992 else - (3602879701896397 / 9007199254740992))"
    by (rule roundToDouble_eval[where e = "-2" and q = "-54" and m = 7205759403792794]) (simp_all add: rd_ev)
  then show ?thesis by simp
qed

lemma rd_half: "roundToDouble (1 / 2) = Fin (1 / 2)"
proof -
  have "roundToDouble (1 / 2) = Fin (if 0 < (1 / 2 :: rat) then 1 / 2 else - (1 / 2))"
    by (rule roundToDouble_eval[where e = "-1" and q = "-53" and m = 4503599627370496]) (simp_all add: rd_ev)
  then show ?thesis by simp
qed

lemma rd_349: "roundToDouble (349 / 100) = Fin (1964695337440379 / 562949953421312)"
proof -
  have "roundToDouble (349 / 100) = Fin (if 0 < (349 / 100 :: rat) then 1964695337440379 / 562949953421312 else - (1964695337440379 / 562949953421312))"
    by (rule roundToDouble_eval[where e = 1 and q = "-51" and m = 7858781349761516]) (simp_all add: rd_ev)
  then show ?thesis by simp
qed

lemma rd_nine_halves: "roundToDouble (9 / 2) = Fin (9 / 2)"
proof -
  have "roundToDouble (9 / 2) = Fin (if 0 < (9 / 2 :: rat) then 9 / 2 else - (9 / 2))"
    by (rule roundToDouble_eval[where e = 2 and q = "-50" and m = 5066549580791808]) (simp_all add: rd_ev)
  then show ?thesis by simp
qed

lemma rd_score_349: "roundToDouble (39631676720860365 / 9007199254740992) = Fin (2476979795053773 / 562949953421312)"
proof -
  have "roundToDouble (39631676720860365 / 9007199254740992) = Fin (if 0 < (39631676720860365 / 9007199254740992 :: rat) then 2476979795053773 / 562949953421312 else - (2476979795053773 / 562949953421312))"
    by (rule roundToDouble_eval[where e = 2 and q = "-50" and m = 4953959590107546]) (simp_all add: rd_ev)
  then show ?thesis by simp
qed

lemma rd_score_diff: "roundToDouble (56294995342131 / 562949953421312) = Fin (56294995342131 / 562949953421312)"
proof -
  have "roundToDouble (56294995342131 / 562949953421312) = Fin (if 0 < (56294995342131 / 562949953421312 :: rat) then 56294995342131 / 562949953421312 else - (56294995342131 / 562949953421312))"
    by (rule roundToDouble_eval[where e = "-4" and q = "-56" and m = 7205759403792768]) (simp_all add: rd_ev)
  then show ?thesis by simp
qed


lemmas rd_values = rd_one_fifth rd_2 rd_4 rd_12 rd_two_fifths rd_half rd_349 rd_nine_halves
  rd_score_349 rd_score_diff

lemma matchAll_priceTag: "matchAll priceTagText = [ustr ''3.49'', ustr ''12,00'']"
  by (simp add: priceTagText_def str_eval ext_eval)

lemma collect_priceTag: "collect [ustr ''3.49'', ustr ''12,00''] {} [] =
  [\<lparr>value = Fin (1964695337440379 / 562949953421312), normalized = ustr ''3.49'',
     score = Fin (2476979795053773 / 562949953421312)\<rparr>,
   \<lparr>value = Fin 12, normalized = ustr ''12.00'', score = Fin (9 / 2)\<rparr>]"
  by (simp add: str_eval ext_eval rd_values)

lemma extractAmounts_priceTag: "extractAmounts priceTagText =
  [\<lparr>value = Fin 12, normalized = ustr ''12.00'', score = Fin (9 / 2)\<rparr>,
   \<lparr>value = Fin (1964695337440379 / 562949953421312), normalized = ustr ''3.49'',
     score = Fin (2476979795053773 / 562949953421312)\<rparr>]"
  unfolding extractAmounts_def Let_def matchAll_priceTag collect_priceTag
  by (simp add: ext_eval ustr_def rd_values)

section \<open>Properties of the candidate extractor\<close>

lemma isDouble_roundToDouble: "isDouble (roundToDouble x)"
  using roundToDouble_cases[of x] by auto

lemma isDouble_num_neg: "isDouble a \<Longrightarrow> isDouble (num_neg a)"
  by (cases a) (simp_all add: onGrid_minus)

lemma isDouble_parseUnsigned: "isDouble (parseUnsigned s)"
  by (simp add: parseUnsigned_def isDouble_roundToDouble split: option.splits)

lemma isDouble_parseFloat: "isDouble (parseFloat s)"
  by (simp add: parseFloat_def Let_def isDouble_parseUnsigned isDouble_num_neg split: list.splits)

lemma num_mul_bounded:
  assumes "\<bar>x * y\<bar> \<le> B" "1 \<le> B" "B < 2 ^ 1023"
  shows "\<exists>z. num_mul (Fin x) (Fin y) = Fin z \<and> onGrid z \<and> \<bar>z\<bar> \<le> 2 * B"
  using roundToDouble_bounded[OF assms] by simp

lemma num_add_bounded:
  assumes "\<bar>x + y\<bar> \<le> B" "1 \<le> B" "B < 2 ^ 1023"
  shows "\<exists>z. num_add (Fin x) (Fin y) = Fin z \<and> onGrid z \<and> \<bar>z\<bar> \<le> 2 * B"
  using roundToDouble_bounded[OF assms] by simp

lemma big: "(18::rat) < 2 ^ 1023"
proof -
  have "(18::rat) < 2 ^ 5" by simp
  also have "(2::rat) ^ 5 \<le> 2 ^ 1023" by (rule power_increasing) simp_all
  finally show ?thesis .
qed

lemma tokenLen_bounded:
  "\<exists>t. num_div (Math_min (Fin (of_nat n)) (Fin 10)) (Fin 10) = Fin t \<and> \<bar>t\<bar> \<le> 2"
proof -
  define k :: rat where "k = (if (10::rat) < of_nat n then 10 else of_nat n)"
  have m: "Math_min (Fin (of_nat n)) (Fin 10) = Fin k"
    by (simp add: Math_min_def k_def)
  have "\<bar>k / 10\<bar> \<le> 1" by (simp add: k_def)
  moreover have "(1::rat) < 2 ^ 1023" using big by simp
  ultimately obtain t where "roundToDouble (k / 10) = Fin t" "\<bar>t\<bar> \<le> 2 * 1"
    using roundToDouble_bounded[of "k / 10" 1] by auto
  then show ?thesis using m by simp
qed

lemma flag_double_bounded:
  assumes "h = 0 \<or> h = 1"
  shows "\<exists>z. num_mul (Fin h) (Fin 2) = Fin z \<and> \<bar>z\<bar> \<le> 4"
proof -
  have "\<bar>h * 2\<bar> \<le> 2" using assms by auto
  moreover have "(2::rat) < 2 ^ 1023" using big by simp
  ultimately show ?thesis using num_mul_bounded[of h 2 2] by auto
qed

lemma scoreOf_Fin: "\<exists>s. scoreOf nrm val = Fin s \<and> onGrid s"
proof -
  define h :: rat where "h = (if endsWithDecimals nrm then 1 else 0)"
  define i :: rat where
    "i = (if num_le (roundToDouble (2 / 10)) val \<and> num_le val (Fin 5000) then 1 else 0)"
  have h01: "h = 0 \<or> h = 1" by (simp add: h_def)
  have i01: "i = 0 \<or> i = 1" by (simp add: i_def)
  obtain z1 where z1: "num_mul (Fin h) (Fin 2) = Fin z1" "\<bar>z1\<bar> \<le> 4"
    using flag_double_bounded[OF h01] by blast
  obtain z2 where z2: "num_mul (Fin i) (Fin 2) = Fin z2" "\<bar>z2\<bar> \<le> 4"
    using flag_double_bounded[OF i01] by blast
  obtain t where t: "num_div (Math_min (Fin (of_nat (length nrm))) (Fin 10)) (Fin 10) = Fin t"
      "\<bar>t\<bar> \<le> 2"
    using tokenLen_bounded by blast
  have "\<bar>z1 + z2\<bar> \<le> 8" using z1 z2 by linarith
  moreover have "(8::rat) < 2 ^ 1023" using big by simp
  ultimately obtain z3 where z3: "num_add (Fin z1) (Fin z2) = Fin z3" "\<bar>z3\<bar> \<le> 2 * 8"
    using num_add_bounded[of z1 z2 8] by auto
  have "\<bar>z3 + t\<bar> \<le> 18" using z3 t by linarith
  then obtain s where s: "num_add (Fin z3) (Fin t) = Fin s" "onGrid s"
    using num_add_bounded[of z3 t 18] big by auto
  have "scoreOf nrm val =
      num_add (num_add (num_mul (Fin h) (Fin 2)) (num_mul (Fin i) (Fin 2)))
        (num_div (Math_min (Fin (of_nat (length nrm))) (Fin 10)) (Fin 10))"
    by (simp add: scoreOf_def Let_def h_def i_def)
  then show ?thesis using z1 z2 z3 t s by simp
qed

lemma tokenCandidate_good:
  assumes "tokenCandidate tok = Some c"
  shows "good c"
proof -
  define nrm where "nrm = normalizeNumberToken tok"
  define val where "val = parseFloat nrm"
  from assms have c: "c = \<lparr>value = val, normalized = nrm, score = scoreOf nrm val\<rparr>"
    and fin: "Number_isFinite val" and lo: "\<not> num_le val (Fin 0)" and hi: "\<not> num_le (Fin 100000) val"
    by (auto simp: tokenCandidate_def Let_def nrm_def val_def split: if_splits)
  from fin obtain v where v: "val = Fin v" by (cases val) simp_all
  have "isDouble val" unfolding val_def by (rule isDouble_parseFloat)
  then have g: "onGrid v" using v by simp
  have r: "0 < v" "v < 100000" using lo hi v by (auto simp: num_le_def)
  obtain s where "scoreOf nrm val = Fin s" "onGrid s" using scoreOf_Fin by blast
  then show ?thesis using c v g r by (auto simp: good_def)
qed

lemma collect_Cons:
  "collect (tok # toks) seen amounts =
     (case tokenCandidate tok of
        None \<Rightarrow> collect toks seen amounts
      | Some c \<Rightarrow>
          if keyOf c \<in> seen then collect toks seen amounts
          else collect toks (insert (keyOf c) seen) (amounts @ [c]))"
  by (simp add: tokenCandidate_def keyOf_def Let_def)

lemma collect_firsts: "collect toks seen amounts = amounts @ firsts toks seen"
proof (induction toks arbitrary: seen amounts)
  case Nil
  show ?case by simp
next
  case (Cons tok toks)
  show ?case
    by (simp only: collect_Cons firsts.simps Cons.IH split: option.split) simp
qed

lemma firsts_good: "c \<in> set (firsts toks seen) \<Longrightarrow> good c"
  by (induction toks arbitrary: seen)
    (auto split: option.splits if_splits dest: tokenCandidate_good)

lemma firsts_unseen: "c \<in> set (firsts toks seen) \<Longrightarrow> keyOf c \<notin> seen"
  by (induction toks arbitrary: seen) (auto split: option.splits if_splits)

lemma firsts_distinct: "distinct (map keyOf (firsts toks seen))"
  by (induction toks arbitrary: seen) (auto split: option.splits dest: firsts_unseen)

lemma firsts_firstOccurrence:
  "c \<in> set (firsts toks seen) \<Longrightarrow> firstOccurrence toks c"
proof (induction toks arbitrary: seen)
  case Nil
  then show ?case by simp
next
  case (Cons tok toks)
  have later: "firstOccurrence (tok # toks) c"
    if mem: "c \<in> set (firsts toks seen')"
      and other: "\<And>c'. tokenCandidate tok = Some c' \<Longrightarrow> keyOf c' \<noteq> keyOf c" for seen'
  proof -
    from Cons.IH[OF mem] obtain pre t post where
      p: "toks = pre @ t # post" "tokenCandidate t = Some c"
        "\<forall>u \<in> set pre. \<forall>c'. tokenCandidate u = Some c' \<longrightarrow> keyOf c' \<noteq> keyOf c"
      unfolding firstOccurrence_def by blast
    have "tok # toks = (tok # pre) @ t # post" using p(1) by simp
    moreover have "\<forall>u \<in> set (tok # pre). \<forall>c'. tokenCandidate u = Some c' \<longrightarrow> keyOf c' \<noteq> keyOf c"
      using p(3) other by auto
    ultimately show ?thesis unfolding firstOccurrence_def using p(2) by blast
  qed
  show ?case
  proof (cases "tokenCandidate tok")
    case None
    then show ?thesis using Cons.prems later[of seen] by simp
  next
    case (Some c0)
    show ?thesis
    proof (cases "keyOf c0 \<in> seen")
      case True
      then have mem: "c \<in> set (firsts toks seen)" using Cons.prems Some by simp
      then have "keyOf c \<notin> seen" by (rule firsts_unseen)
      then have "keyOf c0 \<noteq> keyOf c" using True by auto
      then show ?thesis using later[OF mem] Some by simp
    next
      case False
      then have "c = c0 \<or> c \<in> set (firsts toks (insert (keyOf c0) seen))"
        using Cons.prems Some by simp
      then show ?thesis
      proof
        assume "c = c0"
        then have "tok # toks = [] @ tok # toks \<and> tokenCandidate tok = Some c" using Some by simp
        then show ?thesis unfolding firstOccurrence_def by (metis empty_iff list.set(1))
      next
        assume mem: "c \<in> set (firsts toks (insert (keyOf c0) seen))"
        then have "keyOf c \<notin> insert (keyOf c0) seen" by (rule firsts_unseen)
        then have "keyOf c0 \<noteq> keyOf c" by auto
        then show ?thesis using later[OF mem] Some by simp
      qed
    qed
  qed
qed

lemma set_insertSorted: "set (insertSorted a bs) = insert a (set bs)"
  by (induction bs) auto

lemma sortCandidates_Cons: "sortCandidates (c # cs) = insertSorted c (sortCandidates cs)"
  by (simp add: sortCandidates_def)

lemma set_sortCandidates: "set (sortCandidates cs) = set cs"
  by (induction cs) (simp_all add: sortCandidates_def set_insertSorted)

lemma distinct_map_insertSorted:
  "distinct (map f (insertSorted a bs)) = (f a \<notin> f ` set bs \<and> distinct (map f bs))"
  by (induction bs) (auto simp: set_insertSorted)

lemma distinct_map_sortCandidates:
  "distinct (map f (sortCandidates cs)) = distinct (map f cs)"
  by (induction cs)
    (simp_all add: sortCandidates_def distinct_map_insertSorted set_sortCandidates[unfolded sortCandidates_def])

lemma roundToDouble_0: "roundToDouble 0 = Fin 0"
  by (simp add: roundToDouble_def)

lemma truthy_roundToDouble: "truthy (roundToDouble x) = (num_sgn (roundToDouble x) \<noteq> 0)"
  using roundToDouble_cases[of x] by (auto split: if_splits)

lemma positive_roundToDouble: "num_lt (Fin 0) (roundToDouble x) = (num_sgn (roundToDouble x) = 1)"
  using roundToDouble_cases[of x] by (auto split: if_splits)

lemma compareFn_good:
  assumes a: "value a = Fin va" "score a = Fin sa" "onGrid va" "onGrid sa"
    and b: "value b = Fin vb" "score b = Fin sb" "onGrid vb" "onGrid sb"
  shows "num_lt (Fin 0) (compareFn a b) = (sa < sb \<or> (sa = sb \<and> va < vb))"
proof -
  have ds: "num_sub (score b) (score a) = roundToDouble (sb - sa)"
    using a b by (simp add: num_sub_def)
  have dv: "num_sub (value b) (value a) = roundToDouble (vb - va)"
    using a b by (simp add: num_sub_def)
  have gs: "onGrid (sb - sa)" using a b by (simp add: onGrid_diff)
  have gv: "onGrid (vb - va)" using a b by (simp add: onGrid_diff)
  show ?thesis
  proof (cases "sb = sa")
    case True
    then have "\<not> truthy (num_sub (score b) (score a))"
      by (simp add: ds roundToDouble_0)
    then have "compareFn a b = roundToDouble (vb - va)"
      by (simp add: compareFn_def Let_def dv)
    then show ?thesis using True
      by (simp add: positive_roundToDouble roundToDouble_sgn[OF gv])
  next
    case False
    then have "truthy (num_sub (score b) (score a))"
      by (simp add: ds truthy_roundToDouble roundToDouble_sgn[OF gs])
    then have "compareFn a b = roundToDouble (sb - sa)"
      by (simp add: compareFn_def Let_def ds)
    then show ?thesis using False
      by (auto simp: positive_roundToDouble roundToDouble_sgn[OF gs])
  qed
qed

lemma rankedBefore_good:
  assumes "value a = Fin va" "score a = Fin sa" "value b = Fin vb" "score b = Fin sb"
  shows "rankedBefore a b = (sb < sa \<or> (sa = sb \<and> vb \<le> va))"
  using assms by (auto simp: rankedBefore_def num_le_def)

lemma compareFn_rankedBefore:
  assumes "good a" "good b"
  shows "num_lt (Fin 0) (compareFn a b) = (\<not> rankedBefore a b)"
proof -
  from assms obtain va sa vb sb where
    a: "value a = Fin va" "score a = Fin sa" "onGrid va" "onGrid sa" and
    b: "value b = Fin vb" "score b = Fin sb" "onGrid vb" "onGrid sb"
    unfolding good_def by blast
  show ?thesis
    unfolding compareFn_good[OF a b] rankedBefore_good[OF a(1,2) b(1,2)] by auto
qed

lemma rankedBefore_total:
  assumes "good a" "good b"
  shows "rankedBefore a b \<or> rankedBefore b a"
proof -
  from assms obtain va sa vb sb where
    a: "value a = Fin va" "score a = Fin sa" and b: "value b = Fin vb" "score b = Fin sb"
    unfolding good_def by blast
  show ?thesis unfolding rankedBefore_good[OF a b] rankedBefore_good[OF b a] by linarith
qed

lemma rankedBefore_trans:
  assumes "good a" "good b" "good c" "rankedBefore a b" "rankedBefore b c"
  shows "rankedBefore a c"
proof -
  from assms obtain va sa vb sb vc sc where
    a: "value a = Fin va" "score a = Fin sa" and b: "value b = Fin vb" "score b = Fin sb"
    and c: "value c = Fin vc" "score c = Fin sc"
    unfolding good_def by blast
  show ?thesis
    using assms(4,5)
    unfolding rankedBefore_good[OF a b] rankedBefore_good[OF b c] rankedBefore_good[OF a c]
    by linarith
qed

lemma insertSorted_good:
  assumes "good a" "\<forall>b \<in> set bs. good b"
  shows "insertSorted a bs =
    (case bs of [] \<Rightarrow> [a]
     | b # bs' \<Rightarrow> if rankedBefore a b then a # b # bs' else b # insertSorted a bs')"
  using assms by (cases bs) (simp_all add: compareFn_rankedBefore)

lemma sorted_insertSorted:
  assumes "good a" "\<forall>b \<in> set bs. good b" "sorted_wrt rankedBefore bs"
  shows "sorted_wrt rankedBefore (insertSorted a bs)"
  using assms
proof (induction bs)
  case Nil
  then show ?case by simp
next
  case (Cons b bs)
  show ?case
  proof (cases "rankedBefore a b")
    case True
    have "\<forall>x \<in> set bs. rankedBefore a x"
    proof
      fix x assume x: "x \<in> set bs"
      then have "rankedBefore b x" using Cons.prems(3) by simp
      then show "rankedBefore a x"
        using rankedBefore_trans[of a b x] True Cons.prems(1,2) x by simp
    qed
    then show ?thesis using True Cons.prems by (simp add: compareFn_rankedBefore)
  next
    case False
    then have ba: "rankedBefore b a" using rankedBefore_total[of a b] Cons.prems by simp
    have "sorted_wrt rankedBefore (insertSorted a bs)" using Cons by simp
    then show ?thesis using False ba Cons.prems
      by (simp add: compareFn_rankedBefore set_insertSorted)
  qed
qed

lemma sorted_sortCandidates:
  "\<forall>c \<in> set cs. good c \<Longrightarrow> sorted_wrt rankedBefore (sortCandidates cs)"
proof (induction cs)
  case Nil
  show ?case by (simp add: sortCandidates_def)
next
  case (Cons c cs)
  then show ?case
    by (simp add: sortCandidates_Cons sorted_insertSorted set_sortCandidates)
qed

lemma good_inOpenRange: "good c \<Longrightarrow> inOpenRange (value c)"
  unfolding good_def by (auto simp: inOpenRange_def)

lemma sorted_wrt_take: "sorted_wrt P xs \<Longrightarrow> sorted_wrt P (take n xs)"
  by (metis append_take_drop_id sorted_wrt_append)

lemma extractAmounts_eq:
  "extractAmounts text = take 8 (sortCandidates (firsts (matchAll text) {}))"
  by (simp add: extractAmounts_def Let_def collect_firsts)

lemma extractAmounts_subset:
  "set (extractAmounts text) \<subseteq> set (firsts (matchAll text) {})"
proof -
  have "set (take 8 (sortCandidates (firsts (matchAll text) {})))
      \<subseteq> set (sortCandidates (firsts (matchAll text) {}))"
    by (rule set_take_subset)
  then show ?thesis by (simp only: extractAmounts_eq set_sortCandidates)
qed

text \<open>
  C3: for every text, each candidate that \<open>extractAmounts\<close> returns has a value strictly
  between \<open>0\<close> and \<open>100000\<close>; no two candidates have the same value rounded to two
  decimals (the key \<^verbatim>\<open>toFixed(2)\<close> of line 82), and each candidate comes from the first
  token that makes a candidate with its key; there are at most eight candidates; and they
  are sorted by score, the greater first, and among equal scores by value, the greater
  first.
\<close>

theorem extractAmounts_invariants:
  "(\<forall>c \<in> set (extractAmounts text). inOpenRange (value c)) \<and>
   distinct (map (\<lambda>c. toFixed2 (value c)) (extractAmounts text)) \<and>
   (\<forall>c \<in> set (extractAmounts text). firstOccurrence (matchAll text) c) \<and>
   length (extractAmounts text) \<le> 8 \<and>
   sorted_wrt rankedBefore (extractAmounts text)"
proof (intro conjI ballI)
  fix c assume "c \<in> set (extractAmounts text)"
  then have mem: "c \<in> set (firsts (matchAll text) {})" using extractAmounts_subset by blast
  then show "inOpenRange (value c)" using firsts_good good_inOpenRange by blast
  show "firstOccurrence (matchAll text) c" using mem by (rule firsts_firstOccurrence)
next
  have "distinct (map keyOf (sortCandidates (firsts (matchAll text) {})))"
    by (simp add: distinct_map_sortCandidates firsts_distinct)
  then have "distinct (map keyOf (extractAmounts text))"
    unfolding extractAmounts_eq by (simp flip: take_map)
  then show "distinct (map (\<lambda>c. toFixed2 (value c)) (extractAmounts text))"
    by (simp add: keyOf_def[abs_def])
next
  show "length (extractAmounts text) \<le> 8" by (simp add: extractAmounts_eq)
next
  have "\<forall>c \<in> set (firsts (matchAll text) {}). good c" using firsts_good by blast
  then have "sorted_wrt rankedBefore (sortCandidates (firsts (matchAll text) {}))"
    by (rule sorted_sortCandidates)
  then show "sorted_wrt rankedBefore (extractAmounts text)"
    unfolding extractAmounts_eq by (rule sorted_wrt_take)
qed

theorem extractAmounts_invariants_witness:
  "extractAmounts priceTagText \<noteq> [] \<and>
   inOpenRange (Fin 12) \<and> inOpenRange (Fin (1964695337440379 / 562949953421312)) \<and>
   distinct (map (\<lambda>c. toFixed2 (value c)) (extractAmounts priceTagText)) \<and>
   firstOccurrence (matchAll priceTagText) (hd (extractAmounts priceTagText)) \<and>
   length (extractAmounts priceTagText) \<le> 8 \<and>
   sorted_wrt rankedBefore (extractAmounts priceTagText)"
  using extractAmounts_invariants[of priceTagText] by (simp add: extractAmounts_priceTag)

text \<open>
  C8: the text of the specification's example yields exactly two candidates, the value
  \<open>12\<close> with the normal form \<^verbatim>\<open>12.00\<close> and the double nearest to \<open>3.49\<close> with the normal
  form \<^verbatim>\<open>3.49\<close>, and \<open>12\<close> stands first: its score is \<open>4.5\<close>, the other's is the double
  nearest to \<open>4.4\<close>.
\<close>

theorem extractAmounts_priceTag_ranking:
  "extractAmounts priceTagText =
     [\<lparr>value = parseFloat (ustr ''12.00''), normalized = ustr ''12.00'', score = Fin (9 / 2)\<rparr>,
      \<lparr>value = parseFloat (ustr ''3.49''), normalized = ustr ''3.49'',
        score = Fin (2476979795053773 / 562949953421312)\<rparr>] \<and>
   parseFloat (ustr ''12.00'') = Fin 12 \<and>
   parseFloat (ustr ''3.49'') = Fin (1964695337440379 / 562949953421312)"
  by (simp add: extractAmounts_priceTag parseFloat_def parseUnsigned_def decimalLiteral_def startsWith_def
      exponentPart_def digitsVal_def digitVal_def scale10_def isSpace_def isDigit_def DOT_def
      ustr_def Let_def rd_12 rd_349)

section \<open>Properties of the conversion endpoint\<close>

lemma rd_10: "roundToDouble (10) = Fin (10)"
proof -
  have "roundToDouble (10) = Fin (if 0 < (10 :: rat) then 10 else - (10))"
    by (rule roundToDouble_eval[where e = 3 and q = "-49" and m = 5629499534213120]) (simp_all add: rd_ev)
  then show ?thesis by simp
qed

lemma rd_rate: "roundToDouble (195583 / 100000) = Fin (8808275259200037 / 4503599627370496)"
proof -
  have "roundToDouble (195583 / 100000) = Fin (if 0 < (195583 / 100000 :: rat) then 8808275259200037 / 4503599627370496 else - (8808275259200037 / 4503599627370496))"
    by (rule roundToDouble_eval[where e = 0 and q = "-52" and m = 8808275259200037]) (simp_all add: rd_ev)
  then show ?thesis by simp
qed

lemma rd_ten_by_rate: "roundToDouble (45035996273704960 / 8808275259200037) = Fin (1439158703520531 / 281474976710656)"
proof -
  have "roundToDouble (45035996273704960 / 8808275259200037) = Fin (if 0 < (45035996273704960 / 8808275259200037 :: rat) then 1439158703520531 / 281474976710656 else - (1439158703520531 / 281474976710656))"
    by (rule roundToDouble_eval[where e = 2 and q = "-50" and m = 5756634814082124]) (simp_all add: rd_ev)
  then show ?thesis by simp
qed

lemma rd_quot_eps: "roundToDouble (23026539256328497 / 4503599627370496) = Fin (1439158703520531 / 281474976710656)"
proof -
  have "roundToDouble (23026539256328497 / 4503599627370496) = Fin (if 0 < (23026539256328497 / 4503599627370496 :: rat) then 1439158703520531 / 281474976710656 else - (1439158703520531 / 281474976710656))"
    by (rule roundToDouble_eval[where e = 2 and q = "-50" and m = 5756634814082124]) (simp_all add: rd_ev)
  then show ?thesis by simp
qed

lemma rd_times_100: "roundToDouble (35978967588013275 / 70368744177664) = Fin (8994741897003319 / 17592186044416)"
proof -
  have "roundToDouble (35978967588013275 / 70368744177664) = Fin (if 0 < (35978967588013275 / 70368744177664 :: rat) then 8994741897003319 / 17592186044416 else - (8994741897003319 / 17592186044416))"
    by (rule roundToDouble_eval[where e = 8 and q = "-44" and m = 8994741897003319]) (simp_all add: rd_ev)
  then show ?thesis by simp
qed

lemma rd_by_100: "roundToDouble (511 / 100) = Fin (5753348523965809 / 1125899906842624)"
proof -
  have "roundToDouble (511 / 100) = Fin (if 0 < (511 / 100 :: rat) then 5753348523965809 / 1125899906842624 else - (5753348523965809 / 1125899906842624))"
    by (rule roundToDouble_eval[where e = 2 and q = "-50" and m = 5753348523965809]) (simp_all add: rd_ev)
  then show ?thesis by simp
qed

lemmas conv_eval = toNumber_def convert_def fromCode_def toUpperCase_def trim_def isSpace_def isDigit_def
  radixLiteral_def strictUnsigned_def decimalLiteral_def exponentPart_def digitsVal_def
  digitVal_def scale10_def DOT_def ZERO_def ustr_def Let_def

lemma toNumber_10: "toNumber (Str (ustr ''10'')) = Fin 10"
  by (simp add: conv_eval rd_10)

lemma round2_ten_by_rate: "round2 (num_div (Fin 10) RATE) = Fin (5753348523965809 / 1125899906842624)"
  by (simp add: round2_def RATE_def EPSILON_def rd_rate rd_ten_by_rate rd_quot_eps rd_times_100
      rd_by_100 floor_numeral_div)

lemma toUpperCase_idem: "toUpperCase (toUpperCase s) = toUpperCase s"
  by (induction s) (auto simp: toUpperCase_def)

lemma toUpperCase_Nil: "(toUpperCase s = []) = (s = [])"
  by (simp add: toUpperCase_def)

lemma fromCode_upper: "fromCode (Str (toUpperCase s)) = fromCode (Str s)"
  by (simp add: fromCode_def toUpperCase_Nil toUpperCase_idem)

lemma fromCode_Undefined: "fromCode Undefined = ustr ''BGN''"
  by (simp add: fromCode_def toUpperCase_def ustr_def)

lemma fromCode_BGN: "fromCode (Str (ustr ''BGN'')) = ustr ''BGN''"
  by (simp add: fromCode_def toUpperCase_def ustr_def)

lemma fromCode_EUR: "fromCode (Str (ustr ''EUR'')) = ustr ''EUR''"
  by (simp add: fromCode_def toUpperCase_def ustr_def)

lemma convert_cong: "fromCode q = fromCode q' \<Longrightarrow> convert a q = convert a q'"
  by (simp add: convert_def)

lemma BGN_not_EUR: "ustr ''BGN'' \<noteq> ustr ''EUR''"
  by (simp add: ustr_def)

lemma rd_1e308: "roundToDouble (100000000000000000000000000000000000000000000000000000000000000000000000000000000000000000000000000000000000000000000000000000000000000000000000000000000000000000000000000000000000000000000000000000000000000000000000000000000000000000000000000000000000000000000000000000000000000000000000000000000000000000000) = Fin (100000000000000001097906362944045541740492309677311846336810682903157585404911491537163328978494688899061249669721172515611590283743140088328307009198146046031271664502933027185697489699588559043338384466165001178426897626212945177628091195786707458122783970171784415105291802893207873272974885715430223118336)"
proof -
  have "roundToDouble (100000000000000000000000000000000000000000000000000000000000000000000000000000000000000000000000000000000000000000000000000000000000000000000000000000000000000000000000000000000000000000000000000000000000000000000000000000000000000000000000000000000000000000000000000000000000000000000000000000000000000000000) = (if 2 ^ 1024 \<le> (100000000000000001097906362944045541740492309677311846336810682903157585404911491537163328978494688899061249669721172515611590283743140088328307009198146046031271664502933027185697489699588559043338384466165001178426897626212945177628091195786707458122783970171784415105291802893207873272974885715430223118336 :: rat) then PosInf else Fin (100000000000000001097906362944045541740492309677311846336810682903157585404911491537163328978494688899061249669721172515611590283743140088328307009198146046031271664502933027185697489699588559043338384466165001178426897626212945177628091195786707458122783970171784415105291802893207873272974885715430223118336))"
    by (rule roundToDouble_large[where e = 1023 and m = 5010420900022432])
      (simp_all add: roundHalfEven_def floor_numeral_div)
  then show ?thesis by simp
qed

lemma rd_1e308_eps: "roundToDouble (450359962737049604944530687042500039498811193691795560291347237712678789524668310016960512994179836680509652921056742492944025211086461619369808930331540535677836216061480348251166749186095553704784987887923991518794204872782257187458711590597496955634079974671886387605370767894858690710354908704523284238288822405123014657 / 4503599627370496) = Fin (100000000000000001097906362944045541740492309677311846336810682903157585404911491537163328978494688899061249669721172515611590283743140088328307009198146046031271664502933027185697489699588559043338384466165001178426897626212945177628091195786707458122783970171784415105291802893207873272974885715430223118336)"
proof -
  have "roundToDouble (450359962737049604944530687042500039498811193691795560291347237712678789524668310016960512994179836680509652921056742492944025211086461619369808930331540535677836216061480348251166749186095553704784987887923991518794204872782257187458711590597496955634079974671886387605370767894858690710354908704523284238288822405123014657 / 4503599627370496) = (if 2 ^ 1024 \<le> (100000000000000001097906362944045541740492309677311846336810682903157585404911491537163328978494688899061249669721172515611590283743140088328307009198146046031271664502933027185697489699588559043338384466165001178426897626212945177628091195786707458122783970171784415105291802893207873272974885715430223118336 :: rat) then PosInf else Fin (100000000000000001097906362944045541740492309677311846336810682903157585404911491537163328978494688899061249669721172515611590283743140088328307009198146046031271664502933027185697489699588559043338384466165001178426897626212945177628091195786707458122783970171784415105291802893207873272974885715430223118336))"
    by (rule roundToDouble_large[where e = 1023 and m = 5010420900022432])
      (simp_all add: roundHalfEven_def floor_numeral_div)
  then show ?thesis by simp
qed

lemma rd_1e308_by_rate: "roundToDouble (195582999999999997891167214633852431805720206235660334452188757523239692987218135012567257139608945444603071067641506641335697155624747986331619167793603962818259596936097068075250240668170013302414832977161514661080085107209013671543037493125931818968084525348956055456057991125221559174307697786306420539392) = PosInf"
proof -
  have "roundToDouble (195582999999999997891167214633852431805720206235660334452188757523239692987218135012567257139608945444603071067641506641335697155624747986331619167793603962818259596936097068075250240668170013302414832977161514661080085107209013671543037493125931818968084525348956055456057991125221559174307697786306420539392) = (if 2 ^ 1024 \<le> (195582999999999978625142649784458779644960827269212224176370862954354299130067262025125680905146373674250365831523442082654275097738273731593587541788472533201758913719062315237143862146830942268639942635775072514923277935779193950960749903582985992531791920559811889879458706777712350403302189342067529875456 :: rat) then PosInf else Fin (195582999999999978625142649784458779644960827269212224176370862954354299130067262025125680905146373674250365831523442082654275097738273731593587541788472533201758913719062315237143862146830942268639942635775072514923277935779193950960749903582985992531791920559811889879458706777712350403302189342067529875456))"
    by (rule roundToDouble_large[where e = 1024 and m = 4899765754445436])
      (simp_all add: roundHalfEven_def floor_numeral_div)
  then show ?thesis by simp
qed

lemma rd_1e308_times_100: "roundToDouble (10000000000000000109790636294404554174049230967731184633681068290315758540491149153716332897849468889906124966972117251561159028374314008832830700919814604603127166450293302718569748969958855904333838446616500117842689762621294517762809119578670745812278397017178441510529180289320787327297488571543022311833600) = PosInf"
proof -
  have "roundToDouble (10000000000000000109790636294404554174049230967731184633681068290315758540491149153716332897849468889906124966972117251561159028374314008832830700919814604603127166450293302718569748969958855904333838446616500117842689762621294517762809119578670745812278397017178441510529180289320787327297488571543022311833600) = (if 2 ^ 1024 \<le> (10000000000000000109790636294404554174049230967731184633681068290315758540491149153716332897849468889906124966972117251561159028374314008832830700919814604603127166450293302718569748969958855904333838446616500117842689762621294517762809119578670745812278397017178441510529180289320787327297488571543022311833600 :: rat) then PosInf else Fin (10000000000000000109790636294404554174049230967731184633681068290315758540491149153716332897849468889906124966972117251561159028374314008832830700919814604603127166450293302718569748969958855904333838446616500117842689762621294517762809119578670745812278397017178441510529180289320787327297488571543022311833600))"
    by (rule roundToDouble_large[where e = 1029 and m = 7828782656285050])
      (simp_all add: roundHalfEven_def floor_numeral_div)
  then show ?thesis by simp
qed

lemma not_finite_cases: "\<not> Number_isFinite v \<Longrightarrow> v = NaN \<or> v = PosInf \<or> v = NegInf"
  by (cases v) simp_all

lemma round2_not_finite: "\<not> Number_isFinite v \<Longrightarrow> \<not> Number_isFinite (round2 v)"
  by (auto dest!: not_finite_cases simp: round2_def EPSILON_def signedInf_def)

lemma round2_steps:
  assumes r: "round2 (Fin x) = Fin y"
  shows "\<exists>a b. roundToDouble (x + 1 / 2 ^ 52) = Fin a \<and> roundToDouble (a * 100) = Fin b \<and>
    Fin y = roundToDouble (of_int \<lfloor>b + 1 / 2\<rfloor> / 100)"
proof -
  obtain a where a: "roundToDouble (x + 1 / 2 ^ 52) = Fin a"
    using r by (cases "roundToDouble (x + 1 / 2 ^ 52)") (simp_all add: round2_def EPSILON_def signedInf_def)
  obtain b where b: "roundToDouble (a * 100) = Fin b"
    using r a by (cases "roundToDouble (a * 100)") (simp_all add: round2_def EPSILON_def signedInf_def)
  have "Fin y = roundToDouble (of_int \<lfloor>b + 1 / 2\<rfloor> / 100)"
    using r a b by (simp add: round2_def EPSILON_def)
  then show ?thesis using a b by blast
qed

lemma round2_near:
  assumes r: "round2 (Fin x) = Fin y"
  shows "\<exists>k. Fin y = roundToDouble (of_int k / 100) \<and>
    \<bar>of_int k / 100 - x\<bar> \<le> 1 / 200 + (\<bar>x\<bar> + 1) / 2 ^ 50"
proof -
  from round2_steps[OF r] obtain a b where
    a: "roundToDouble (x + 1 / 2 ^ 52) = Fin a" and b: "roundToDouble (a * 100) = Fin b"
    and y: "Fin y = roundToDouble (of_int \<lfloor>b + 1 / 2\<rfloor> / 100)" by blast
  define k where "k = \<lfloor>b + 1 / 2\<rfloor>"
  define X where "X = \<bar>x\<bar>"
  have X0: "0 \<le> X" by (simp add: X_def)
  have p: "(2::rat) ^ 50 = 1125899906842624" "(2::rat) ^ 52 = 4503599627370496"
    "(2::rat) ^ 53 = 9007199254740992" by simp_all
  have ea: "\<bar>a - (x + 1 / 2 ^ 52)\<bar> \<le> (\<bar>x + 1 / 2 ^ 52\<bar> + 1) / 2 ^ 53"
    using a by (rule roundToDouble_error)
  have eb: "\<bar>b - a * 100\<bar> \<le> (\<bar>a * 100\<bar> + 1) / 2 ^ 53"
    using b by (rule roundToDouble_error)
  have xe: "\<bar>x + 1 / 2 ^ 52\<bar> \<le> X + 1" unfolding X_def by (simp add: abs_if)
  have ea': "\<bar>a - x\<bar> \<le> (X + 2) / 2 ^ 53 + 1 / 2 ^ 52"
  proof -
    have "(\<bar>x + 1 / 2 ^ 52\<bar> + 1) / 2 ^ 53 \<le> (X + 2) / 2 ^ 53" using xe by simp
    then have "\<bar>a - (x + 1 / 2 ^ 52)\<bar> \<le> (X + 2) / 2 ^ 53" using ea by linarith
    then show ?thesis unfolding p by (simp add: add_divide_distrib)
  qed
  have aX: "\<bar>a\<bar> \<le> 2 * X + 2"
  proof -
    have "(X + 2) / 2 ^ 53 + 1 / 2 ^ 52 \<le> X + 2" using X0 unfolding p by (simp add: field_simps)
    then have "\<bar>a - x\<bar> \<le> X + 2" using ea' by linarith
    then show ?thesis unfolding X_def by linarith
  qed
  have eb': "\<bar>b - a * 100\<bar> \<le> (200 * X + 201) / 2 ^ 53"
  proof -
    have "\<bar>a * 100\<bar> = \<bar>a\<bar> * 100" by (simp add: abs_mult)
    then have "\<bar>a * 100\<bar> + 1 \<le> 200 * X + 201" using aX by linarith
    then have "(\<bar>a * 100\<bar> + 1) / 2 ^ 53 \<le> (200 * X + 201) / 2 ^ 53" by simp
    then show ?thesis using eb by linarith
  qed
  have kb: "\<bar>of_int k - b\<bar> \<le> 1 / 2" unfolding k_def by linarith
  have tri: "\<bar>c + d + e\<bar> \<le> \<bar>c\<bar> + \<bar>d\<bar> + \<bar>e\<bar>" for c d e :: rat by linarith
  have "of_int k - x * 100 = (of_int k - b) + (b - a * 100) + (a - x) * 100"
    by (simp add: algebra_simps)
  then have "\<bar>of_int k - x * 100\<bar> \<le> \<bar>of_int k - b\<bar> + \<bar>b - a * 100\<bar> + \<bar>(a - x) * 100\<bar>"
    using tri[of "of_int k - b" "b - a * 100" "(a - x) * 100"] by (simp only:)
  also have "\<bar>(a - x) * 100\<bar> = \<bar>a - x\<bar> * 100" by (subst abs_mult) simp
  finally have "\<bar>of_int k - x * 100\<bar> \<le> \<bar>of_int k - b\<bar> + \<bar>b - a * 100\<bar> + \<bar>a - x\<bar> * 100" .
  also have "\<dots> \<le> 1 / 2 + (200 * X + 201) / 2 ^ 53 + ((X + 2) / 2 ^ 53 + 1 / 2 ^ 52) * 100"
    by (intro add_mono mult_right_mono kb eb' ea') simp
  also have "\<dots> \<le> 1 / 2 + (X + 1) / 2 ^ 50 * 100" using X0 unfolding p by (simp add: field_simps)
  finally have F: "\<bar>of_int k - x * 100\<bar> \<le> 1 / 2 + (X + 1) / 2 ^ 50 * 100" .
  define D where "D = \<bar>of_int k - x * 100\<bar>"
  have "of_int k / 100 - x = (of_int k - x * 100) / 100" by (simp add: diff_divide_distrib)
  then have eq: "\<bar>of_int k / 100 - x\<bar> = D / 100" unfolding D_def by (simp only: abs_divide)
  have "D / 100 \<le> 1 / 200 + (X + 1) / 2 ^ 50"
    using F unfolding D_def[symmetric] p by (simp add: field_simps)
  then have "\<bar>of_int k / 100 - x\<bar> \<le> 1 / 200 + (X + 1) / 2 ^ 50" by (simp only: eq)
  then show ?thesis using y unfolding k_def X_def by blast
qed

lemma round2_rounded2:
  assumes f: "Number_isFinite (round2 v)"
  shows "rounded2 v (round2 v)"
proof -
  obtain x where v: "v = Fin x" using f round2_not_finite[of v] by (cases v) auto
  obtain y where y: "round2 (Fin x) = Fin y" using f v by (cases "round2 (Fin x)") auto
  from round2_near[OF y] obtain k where
    "Fin y = roundToDouble (of_int k / 100)"
    "\<bar>of_int k / 100 - x\<bar> \<le> 1 / 200 + (\<bar>x\<bar> + 1) / 2 ^ 50" by blast
  then show ?thesis unfolding rounded2_def using v y f by auto
qed

lemma round2_finite_pow2:
  assumes x: "\<bar>x\<bar> \<le> 2 ^ 1000"
  shows "Number_isFinite (round2 (Fin x))"
proof -
  have "(1::rat) / 2 ^ 52 \<le> 1" by simp
  also have "(1::rat) \<le> 2 ^ 1000" by (rule one_le_power) simp
  finally have e: "(1::rat) / 2 ^ 52 \<le> 2 ^ 1000" .
  have "\<bar>x + 1 / 2 ^ 52\<bar> \<le> \<bar>x\<bar> + \<bar>1 / 2 ^ 52\<bar>" by (rule abs_triangle_ineq)
  also have "\<dots> \<le> 2 ^ 1000 + 2 ^ 1000" using x e by (intro add_mono) simp_all
  also have "\<dots> = (2::rat) ^ 1001" by (simp only: mult_2[symmetric] power_Suc[symmetric]) simp
  finally obtain a where a: "roundToDouble (x + 1 / 2 ^ 52) = Fin a" and ab: "\<bar>a\<bar> \<le> 2 ^ Suc 1001"
    using roundToDouble_pow2[of "x + 1 / 2 ^ 52" 1001] by auto
  have "\<bar>a * 100\<bar> = \<bar>a\<bar> * 100" by (subst abs_mult) simp
  also have "\<dots> \<le> 2 ^ Suc 1001 * 2 ^ 7" using ab by (intro mult_mono) simp_all
  also have "\<dots> = (2::rat) ^ 1009" by (simp only: power_add[symmetric]) simp
  finally obtain b where b: "roundToDouble (a * 100) = Fin b" and bb: "\<bar>b\<bar> \<le> 2 ^ Suc 1009"
    using roundToDouble_pow2[of "a * 100" 1009] by auto
  define k where "k = \<lfloor>b + 1 / 2\<rfloor>"
  have "\<bar>of_int k - b\<bar> \<le> 1 / 2" unfolding k_def by linarith
  moreover have "(1::rat) \<le> 2 ^ Suc 1009" by (rule one_le_power) simp
  ultimately have "\<bar>of_int k :: rat\<bar> \<le> 2 ^ Suc 1009 + 2 ^ Suc 1009" using bb by linarith
  also have "\<dots> = (2::rat) ^ 1011" by (simp only: mult_2[symmetric] power_Suc[symmetric]) simp
  finally have kb: "\<bar>of_int k :: rat\<bar> \<le> 2 ^ 1011" .
  have "\<bar>of_int k / 100 :: rat\<bar> = \<bar>of_int k\<bar> / 100" by (simp only: abs_divide abs_numeral)
  also have "\<dots> \<le> \<bar>of_int k\<bar>" by simp
  finally have "\<bar>of_int k / 100 :: rat\<bar> \<le> 2 ^ 1011" using kb by simp
  then obtain y where "roundToDouble (of_int k / 100) = Fin y"
    using roundToDouble_pow2[of "of_int k / 100" 1011] by auto
  then show ?thesis using a b by (simp add: round2_def EPSILON_def k_def)
qed

lemma decimalLiteral_digit:
  assumes d: "decimalLiteral u = Some p"
  shows "\<exists>c\<in>set u. isDigit c"
proof -
  define r1 where "r1 = dropWhile isDigit u"
  define fp where "fp = (if (case r1 of [] \<Rightarrow> False | c # _ \<Rightarrow> c = DOT) then takeWhile isDigit (tl r1) else [])"
  have "\<not> (takeWhile isDigit u = [] \<and> fp = [])"
    using d unfolding decimalLiteral_def Let_def fp_def r1_def by (auto split: if_splits)
  then consider "takeWhile isDigit u \<noteq> []" | "fp \<noteq> []" by blast
  then show ?thesis
  proof cases
    case 1
    then obtain c where "c \<in> set (takeWhile isDigit u)" by (cases "takeWhile isDigit u") auto
    then have "c \<in> set u \<and> isDigit c" by (rule set_takeWhileD)
    then show ?thesis by blast
  next
    case 2
    then have fp: "fp = takeWhile isDigit (tl r1)" and ne: "r1 \<noteq> []"
      unfolding fp_def by (auto split: if_splits list.splits)
    from 2 obtain c where "c \<in> set fp" by (cases fp) auto
    then have c: "c \<in> set (tl r1) \<and> isDigit c" unfolding fp by (rule set_takeWhileD)
    then have "c \<in> set r1" using ne by (auto dest: list.set_sel(2))
    then have "c \<in> set u" unfolding r1_def by (rule set_dropWhileD)
    then show ?thesis using c by blast
  qed
qed

lemma strictUnsigned_digit:
  assumes f: "Number_isFinite (strictUnsigned u)"
  shows "\<exists>c\<in>set u. isDigit c"
proof (cases "decimalLiteral u")
  case None
  then show ?thesis using f by (simp add: strictUnsigned_def split: if_splits)
next
  case (Some p)
  then show ?thesis by (rule decimalLiteral_digit)
qed

lemma radixLiteral_digit:
  assumes r: "radixLiteral t = Some n"
  shows "\<exists>c\<in>set t. isDigit c"
proof -
  have "ZERO \<in> set t"
    using r by (auto simp: radixLiteral_def split: list.splits if_splits)
  moreover have "isDigit ZERO" by (simp add: isDigit_def ZERO_def)
  ultimately show ?thesis by blast
qed

lemma set_trim: "c \<in> set (trim s) \<Longrightarrow> c \<in> set s"
  by (auto simp: trim_def dest!: set_dropWhileD)

lemma num_neg_finite: "Number_isFinite (num_neg v) = Number_isFinite v"
  by (cases v) simp_all

lemma toNumber_digit:
  assumes f: "Number_isFinite (toNumber (Str s))" and t: "trim s \<noteq> []"
  shows "\<exists>c\<in>set s. isDigit c"
proof -
  obtain c r where cr: "trim s = c # r" using t by (cases "trim s") auto
  have "\<exists>d\<in>set (trim s). isDigit d"
  proof (cases "radixLiteral (trim s)")
    case (Some n)
    then show ?thesis by (rule radixLiteral_digit)
  next
    case None
    then have "Number_isFinite (strictUnsigned r) \<or> Number_isFinite (strictUnsigned (trim s))"
      using f cr by (auto simp: toNumber_def Let_def num_neg_finite split: if_splits)
    then have "(\<exists>d\<in>set r. isDigit d) \<or> (\<exists>d\<in>set (trim s). isDigit d)"
      using strictUnsigned_digit by blast
    then show ?thesis using cr by auto
  qed
  then show ?thesis using set_trim by blast
qed

lemma toNumber_blank: "trim s = [] \<Longrightarrow> toNumber (Str s) = Fin 0"
  by (simp add: toNumber_def)

lemma toNumber_finite_iff:
  "Number_isFinite (toNumber q) = (writtenNumber q \<or> (\<exists>s. q = Str s \<and> trim s = []))"
proof (cases q)
  case Undefined
  then show ?thesis by (simp add: writtenNumber_def toNumber_def)
next
  case (Str s)
  show ?thesis
  proof (cases "trim s = []")
    case True
    then show ?thesis using Str by (simp add: toNumber_blank)
  next
    case False
    then show ?thesis using Str toNumber_digit[of s] by (auto simp: writtenNumber_def)
  qed
qed

lemma RATE_value: "RATE = Fin (8808275259200037 / 4503599627370496)"
  by (simp add: RATE_def rd_rate)

lemma pow10_le: "(10::rat) ^ 300 \<le> 2 ^ 997"
  by simp

lemma sums_finite:
  assumes a: "\<bar>a\<bar> \<le> 10 ^ 300"
  shows "Number_isFinite (round2 (Fin a))"
    and "Number_isFinite (round2 (num_mul (Fin a) RATE))"
    and "Number_isFinite (round2 (num_div (Fin a) RATE))"
proof -
  have a2: "\<bar>a\<bar> \<le> 2 ^ 997" using a pow10_le by (rule order_trans)
  have up: "(2::rat) ^ n \<le> 2 ^ 1000" if "n \<le> 1000" for n
    using that by (intro power_increasing) simp_all
  have "\<bar>a\<bar> \<le> 2 ^ 1000" using a2 up[of 997] by simp
  then show "Number_isFinite (round2 (Fin a))" by (rule round2_finite_pow2)
  define r :: rat where "r = 8808275259200037 / 4503599627370496"
  have r: "1 \<le> r" "r \<le> 2" by (simp_all add: r_def)
  have R: "RATE = Fin r" by (simp add: RATE_value r_def)
  have "\<bar>a * r\<bar> = \<bar>a\<bar> * r" using r by (simp add: abs_mult)
  also have "\<dots> \<le> 2 ^ 997 * 2" using a2 r by (intro mult_mono) simp_all
  finally have "\<bar>a * r\<bar> \<le> 2 ^ 998" by simp
  then obtain s where s: "roundToDouble (a * r) = Fin s" "\<bar>s\<bar> \<le> 2 ^ Suc 998"
    using roundToDouble_pow2[of "a * r" 998] by auto
  have "\<bar>s\<bar> \<le> 2 ^ 1000" using s(2) up[of "Suc 998"] by simp
  then show "Number_isFinite (round2 (num_mul (Fin a) RATE))"
    using s(1) by (simp add: R round2_finite_pow2)
  have "\<bar>a / r\<bar> = \<bar>a\<bar> / r" using r by simp
  also have "\<dots> \<le> \<bar>a\<bar>"
  proof -
    have "\<bar>a\<bar> * 1 \<le> \<bar>a\<bar> * r" using r by (intro mult_left_mono) simp_all
    moreover have "0 < r" using r by simp
    ultimately show ?thesis by (simp add: divide_le_eq)
  qed
  finally have "\<bar>a / r\<bar> \<le> 2 ^ 997" using a2 by simp
  then obtain t where t: "roundToDouble (a / r) = Fin t" "\<bar>t\<bar> \<le> 2 ^ Suc 997"
    using roundToDouble_pow2[of "a / r" 997] by auto
  have "\<bar>t\<bar> \<le> 2 ^ 1000" using t(2) up[of "Suc 997"] by simp
  moreover have "r \<noteq> 0" using r by simp
  ultimately show "Number_isFinite (round2 (num_div (Fin a) RATE))"
    using t(1) by (simp add: R round2_finite_pow2)
qed

lemma toNumber_1e308:
  "toNumber (Str (ustr ''1e308'')) = Fin (100000000000000001097906362944045541740492309677311846336810682903157585404911491537163328978494688899061249669721172515611590283743140088328307009198146046031271664502933027185697489699588559043338384466165001178426897626212945177628091195786707458122783970171784415105291802893207873272974885715430223118336)"
  by (simp add: conv_eval rd_1e308)

lemma writtenNumber_10: "writtenNumber (Str (ustr ''10''))"
  by (simp add: writtenNumber_def toNumber_10) (simp add: ustr_def isDigit_def)

lemma fromCode_bgn: "fromCode (Str (ustr ''bgn'')) = ustr ''BGN''"
  by (simp add: fromCode_def toUpperCase_def ustr_def)

lemma round2_PosInf: "round2 PosInf = PosInf"
  by (simp add: round2_def EPSILON_def signedInf_def)

lemma rounded2_PosInf: "\<not> rounded2 v PosInf"
  by (simp add: rounded2_def)

text \<open>
  C7, as the code has it. The response is \<open>400\<close> with an error object exactly when
  \<^verbatim>\<open>Number(amount)\<close> is not finite or the code of line 135 (the \<^verbatim>\<open>from\<close> parameter in upper
  case, \<^verbatim>\<open>BGN\<close> standing in for an absent or empty one) is neither \<^verbatim>\<open>BGN\<close> nor \<^verbatim>\<open>EUR\<close>;
  \<^verbatim>\<open>Number(amount)\<close> is finite exactly for a parameter that is a finite number and for one
  that is empty or blank, which counts as \<open>0\<close>. Otherwise the response is \<open>200\<close> with the rate,
  the amount, that code, and both sums passed through \<open>round2\<close>: for \<^verbatim>\<open>BGN\<close> the field \<open>eur\<close>
  is \<open>round2 (amount / RATE)\<close>. A finite result of \<open>round2\<close> is its argument rounded to two
  decimals, and both results are finite for an amount of at most \<open>10 ^ 300\<close> in absolute
  value.
\<close>

theorem convert_response:
  "(status (convert qa qf) = 400) =
     (\<not> Number_isFinite (toNumber qa) \<or>
      (fromCode qf \<noteq> ustr ''BGN'' \<and> fromCode qf \<noteq> ustr ''EUR'')) \<and>
   Number_isFinite (toNumber qa) = (writtenNumber qa \<or> (\<exists>s. qa = Str s \<and> trim s = [])) \<and>
   (status (convert qa qf) = 400 \<longrightarrow> (\<exists>msg. json (convert qa qf) = ErrorBody msg)) \<and>
   (status (convert qa qf) \<noteq> 400 \<longrightarrow>
      status (convert qa qf) = 200 \<and>
      json (convert qa qf) = ConversionBody
        \<lparr>c_rate = RATE, c_amount = toNumber qa, c_from = fromCode qf,
         c_bgn = round2 (if fromCode qf = ustr ''EUR'' then num_mul (toNumber qa) RATE
                         else toNumber qa),
         c_eur = round2 (if fromCode qf = ustr ''BGN'' then num_div (toNumber qa) RATE
                         else toNumber qa)\<rparr>) \<and>
   (Number_isFinite (round2 v) \<longrightarrow> rounded2 v (round2 v)) \<and>
   (toNumber qa = Fin a \<and> \<bar>a\<bar> \<le> 10 ^ 300 \<longrightarrow>
      Number_isFinite
        (round2 (if fromCode qf = ustr ''EUR'' then num_mul (toNumber qa) RATE else toNumber qa)) \<and>
      Number_isFinite
        (round2 (if fromCode qf = ustr ''BGN'' then num_div (toNumber qa) RATE else toNumber qa)))"
proof (intro conjI impI)
  show "(status (convert qa qf) = 400) =
     (\<not> Number_isFinite (toNumber qa) \<or>
      (fromCode qf \<noteq> ustr ''BGN'' \<and> fromCode qf \<noteq> ustr ''EUR''))"
    by (simp add: convert_def Let_def)
  show "Number_isFinite (toNumber qa) = (writtenNumber qa \<or> (\<exists>s. qa = Str s \<and> trim s = []))"
    by (rule toNumber_finite_iff)
  show "\<exists>msg. json (convert qa qf) = ErrorBody msg" if "status (convert qa qf) = 400"
    using that by (simp add: convert_def Let_def split: if_splits)
  show "status (convert qa qf) = 200" if "status (convert qa qf) \<noteq> 400"
    using that by (simp add: convert_def Let_def split: if_splits)
  show "json (convert qa qf) = ConversionBody
        \<lparr>c_rate = RATE, c_amount = toNumber qa, c_from = fromCode qf,
         c_bgn = round2 (if fromCode qf = ustr ''EUR'' then num_mul (toNumber qa) RATE
                         else toNumber qa),
         c_eur = round2 (if fromCode qf = ustr ''BGN'' then num_div (toNumber qa) RATE
                         else toNumber qa)\<rparr>" if "status (convert qa qf) \<noteq> 400"
    using that by (simp add: convert_def Let_def split: if_splits)
  show "rounded2 v (round2 v)" if "Number_isFinite (round2 v)"
    using that by (rule round2_rounded2)
next
  assume h: "toNumber qa = Fin a \<and> \<bar>a\<bar> \<le> 10 ^ 300"
  then have a: "\<bar>a\<bar> \<le> 10 ^ 300" and t: "toNumber qa = Fin a" by simp_all
  show "Number_isFinite
        (round2 (if fromCode qf = ustr ''EUR'' then num_mul (toNumber qa) RATE else toNumber qa))"
    using sums_finite(1,2)[OF a] by (simp add: t)
  show "Number_isFinite
        (round2 (if fromCode qf = ustr ''BGN'' then num_div (toNumber qa) RATE else toNumber qa))"
    using sums_finite(1,3)[OF a] by (simp add: t)
qed

theorem convert_response_witness:
  "writtenNumber (Str (ustr ''10'')) \<and>
   status (convert (Str (ustr ''10'')) (Str (ustr ''BGN''))) = 200 \<and>
   json (convert (Str (ustr ''10'')) (Str (ustr ''BGN''))) = ConversionBody
     \<lparr>c_rate = RATE, c_amount = Fin 10, c_from = ustr ''BGN'',
      c_bgn = round2 (Fin 10), c_eur = round2 (num_div (Fin 10) RATE)\<rparr> \<and>
   Number_isFinite (round2 (Fin 10)) \<and>
   round2 (num_div (Fin 10) RATE) = Fin (5753348523965809 / 1125899906842624) \<and>
   rounded2 (num_div (Fin 10) RATE) (Fin (5753348523965809 / 1125899906842624))"
proof -
  note th = convert_response[of "Str (ustr ''10'')" "Str (ustr ''BGN'')" "num_div (Fin 10) RATE" 10]
  have w: "writtenNumber (Str (ustr ''10''))" by (rule writtenNumber_10)
  have fin: "Number_isFinite (toNumber (Str (ustr ''10'')))" by (simp add: toNumber_10)
  have st: "status (convert (Str (ustr ''10'')) (Str (ustr ''BGN''))) \<noteq> 400"
    using th fin by (simp add: fromCode_BGN)
  have body: "status (convert (Str (ustr ''10'')) (Str (ustr ''BGN''))) = 200 \<and>
    json (convert (Str (ustr ''10'')) (Str (ustr ''BGN''))) = ConversionBody
     \<lparr>c_rate = RATE, c_amount = Fin 10, c_from = ustr ''BGN'',
      c_bgn = round2 (Fin 10), c_eur = round2 (num_div (Fin 10) RATE)\<rparr>"
    using th st by (simp add: toNumber_10 fromCode_BGN BGN_not_EUR)
  have f10: "Number_isFinite (round2 (Fin 10))"
    using th by (simp add: toNumber_10 fromCode_BGN BGN_not_EUR)
  have r: "rounded2 (num_div (Fin 10) RATE) (Fin (5753348523965809 / 1125899906842624))"
    using th by (simp add: round2_ten_by_rate)
  show ?thesis using w body f10 r round2_ten_by_rate by (intro conjI) simp_all
qed

text \<open>
  C7 as the specification states it fails in three places. For \<^verbatim>\<open>amount=10&from=bgn\<close> the
  \<^verbatim>\<open>from\<close> parameter itself is neither \<^verbatim>\<open>BGN\<close> nor \<^verbatim>\<open>EUR\<close>, and the response is not \<open>400\<close>.
  For \<^verbatim>\<open>amount=&from=BGN\<close> the amount parameter is empty, so it is no number, and the response
  is not \<open>400\<close>. For \<^verbatim>\<open>amount=1e308&from=EUR\<close> the response is \<open>200\<close> and the fields \<open>bgn\<close> and
  \<open>eur\<close> are both \<^verbatim>\<open>Infinity\<close>, which is no sum rounded to two decimals.
\<close>

theorem convert_as_stated_counterexample:
  "\<not> ((status (convert (Str (ustr ''10'')) (Str (ustr ''bgn''))) = 400) =
       (\<not> writtenNumber (Str (ustr ''10'')) \<or>
        (ustr ''bgn'' \<noteq> ustr ''BGN'' \<and> ustr ''bgn'' \<noteq> ustr ''EUR''))) \<and>
   \<not> ((status (convert (Str (ustr '''')) (Str (ustr ''BGN''))) = 400) =
       (\<not> writtenNumber (Str (ustr '''')) \<or>
        (ustr ''BGN'' \<noteq> ustr ''BGN'' \<and> ustr ''BGN'' \<noteq> ustr ''EUR''))) \<and>
   status (convert (Str (ustr ''1e308'')) (Str (ustr ''EUR''))) = 200 \<and>
   json (convert (Str (ustr ''1e308'')) (Str (ustr ''EUR''))) = ConversionBody
     \<lparr>c_rate = RATE, c_amount = toNumber (Str (ustr ''1e308'')), c_from = ustr ''EUR'',
      c_bgn = PosInf, c_eur = PosInf\<rparr> \<and>
   \<not> rounded2 (num_mul (toNumber (Str (ustr ''1e308''))) RATE) PosInf \<and>
   \<not> rounded2 (toNumber (Str (ustr ''1e308''))) PosInf"
proof (intro conjI)
  show "\<not> ((status (convert (Str (ustr ''10'')) (Str (ustr ''bgn''))) = 400) =
       (\<not> writtenNumber (Str (ustr ''10'')) \<or>
        (ustr ''bgn'' \<noteq> ustr ''BGN'' \<and> ustr ''bgn'' \<noteq> ustr ''EUR'')))"
    by (simp add: convert_def Let_def toNumber_10 fromCode_bgn writtenNumber_10) (simp add: ustr_def)
  have blank: "toNumber (Str (ustr '''')) = Fin 0" by (simp add: toNumber_def trim_def ustr_def)
  show "\<not> ((status (convert (Str (ustr '''')) (Str (ustr ''BGN''))) = 400) =
       (\<not> writtenNumber (Str (ustr '''')) \<or>
        (ustr ''BGN'' \<noteq> ustr ''BGN'' \<and> ustr ''BGN'' \<noteq> ustr ''EUR'')))"
    by (simp add: convert_def Let_def blank fromCode_BGN writtenNumber_def) (simp add: ustr_def)
  have bgn: "round2 (num_mul (toNumber (Str (ustr ''1e308''))) RATE) = PosInf"
    by (simp add: toNumber_1e308 RATE_value rd_1e308_by_rate round2_PosInf)
  have eur: "round2 (toNumber (Str (ustr ''1e308''))) = PosInf"
    by (simp add: toNumber_1e308 round2_def EPSILON_def rd_1e308_eps rd_1e308_times_100 signedInf_def)
  have fin: "Number_isFinite (toNumber (Str (ustr ''1e308'')))" by (simp add: toNumber_1e308)
  show "status (convert (Str (ustr ''1e308'')) (Str (ustr ''EUR''))) = 200"
    using fin by (simp add: convert_def Let_def fromCode_EUR)
  show "json (convert (Str (ustr ''1e308'')) (Str (ustr ''EUR''))) = ConversionBody
     \<lparr>c_rate = RATE, c_amount = toNumber (Str (ustr ''1e308'')), c_from = ustr ''EUR'',
      c_bgn = PosInf, c_eur = PosInf\<rparr>"
    using fin bgn eur BGN_not_EUR by (simp add: convert_def Let_def fromCode_EUR)
  show "\<not> rounded2 (num_mul (toNumber (Str (ustr ''1e308''))) RATE) PosInf" by (rule rounded2_PosInf)
  show "\<not> rounded2 (toNumber (Str (ustr ''1e308''))) PosInf" by (rule rounded2_PosInf)
qed

text \<open>
  C10: for a finite amount the \<^verbatim>\<open>from\<close> parameter is read without regard to case and
  defaults to \<^verbatim>\<open>BGN\<close>: a request with any spelling \<open>s\<close> gets the response of the request
  with \<open>s\<close> in upper case, a request without the parameter gets the response for
  \<^verbatim>\<open>BGN\<close>, and the status is \<open>200\<close> for every spelling of \<^verbatim>\<open>BGN\<close> and \<^verbatim>\<open>EUR\<close>, such as
  \<^verbatim>\<open>bgn\<close> and \<^verbatim>\<open>eur\<close>.
\<close>

theorem convert_from_case_insensitive:
  assumes "Number_isFinite (toNumber qa)"
  shows "convert qa (Str s) = convert qa (Str (toUpperCase s)) \<and>
    convert qa Undefined = convert qa (Str (ustr ''BGN'')) \<and>
    status (convert qa Undefined) = 200 \<and>
    (toUpperCase s = ustr ''BGN'' \<or> toUpperCase s = ustr ''EUR'' \<longrightarrow>
       s \<noteq> [] \<and> status (convert qa (Str s)) = 200) \<and>
    toUpperCase (ustr ''bgn'') = ustr ''BGN'' \<and> toUpperCase (ustr ''eur'') = ustr ''EUR''"
proof (intro conjI impI)
  show "convert qa (Str s) = convert qa (Str (toUpperCase s))"
    by (rule convert_cong) (simp add: fromCode_upper)
  show "convert qa Undefined = convert qa (Str (ustr ''BGN''))"
    by (rule convert_cong) (simp add: fromCode_Undefined fromCode_BGN)
  show "status (convert qa Undefined) = 200"
    using assms by (simp add: convert_def Let_def fromCode_Undefined)
  show "toUpperCase (ustr ''bgn'') = ustr ''BGN''" by (simp add: toUpperCase_def ustr_def)
  show "toUpperCase (ustr ''eur'') = ustr ''EUR''" by (simp add: toUpperCase_def ustr_def)
next
  assume u: "toUpperCase s = ustr ''BGN'' \<or> toUpperCase s = ustr ''EUR''"
  then show ne: "s \<noteq> []" by (auto simp: toUpperCase_def ustr_def)
  then have "fromCode (Str s) = toUpperCase s" by (simp add: fromCode_def)
  then show "status (convert qa (Str s)) = 200"
    using assms u by (auto simp: convert_def Let_def)
qed

theorem convert_from_case_insensitive_witness:
  "Number_isFinite (toNumber (Str (ustr ''10''))) \<and>
   status (convert (Str (ustr ''10'')) (Str (ustr ''eur''))) = 200 \<and>
   convert (Str (ustr ''10'')) (Str (ustr ''eur'')) = convert (Str (ustr ''10'')) (Str (ustr ''EUR'')) \<and>
   status (convert (Str (ustr ''10'')) Undefined) = 200"
proof -
  have fin: "Number_isFinite (toNumber (Str (ustr ''10'')))" by (simp add: toNumber_10)
  have up: "toUpperCase (ustr ''eur'') = ustr ''EUR''" by (simp add: toUpperCase_def ustr_def)
  note th = convert_from_case_insensitive[OF fin, of "ustr ''eur''"]
  have a: "status (convert (Str (ustr ''10'')) (Str (ustr ''eur''))) = 200"
    using th up by blast
  have b: "convert (Str (ustr ''10'')) (Str (ustr ''eur'')) =
      convert (Str (ustr ''10'')) (Str (ustr ''EUR''))"
    using conjunct1[OF th] by (simp only: up)
  have c: "status (convert (Str (ustr ''10'')) Undefined) = 200"
    using th by blast
  show ?thesis using fin a b c by (intro conjI)
qed

section \<open>Properties of the recognition engine manager\<close>

lemma shaped_Nil [simp]: "shaped []"
  unfolding shaped_def by (rule exI[of _ "[]"], rule exI[of _ "[]"]) simp

lemma queuePromise_nonempty:
  "chain s \<noteq> [] \<Longrightarrow> queuePromise s =
     (case snd (last (chain s)) of
        Finished (Resolved r) \<Rightarrow> Settled (Resolved ())
      | Finished (Rejected e) \<Rightarrow> Settled (Rejected e)
      | _ \<Rightarrow> Pending)"
  by (cases "chain s") (simp_all add: queuePromise_def)

lemma active_snoc: "ws \<noteq> [] \<Longrightarrow> active (ws @ [b]) = active ws @ [(b, Waiting)]"
  by (cases ws) simp_all

lemma last_active: "ws \<noteq> [] \<Longrightarrow> snd (last (active ws)) \<noteq> Finished out"
  by (cases ws) (auto simp: last_map)

lemma queuePromise_busy:
  assumes "chain s = fs @ active ws" "ws \<noteq> []"
  shows "queuePromise s = Pending"
proof -
  obtain w ws' where ws: "ws = w # ws'" using assms(2) by (cases ws) auto
  have ne: "active ws \<noteq> []" using ws by simp
  have l: "last (chain s) = last (active ws)" using assms(1) ne by simp
  have "snd (last (active ws)) = Running \<or> snd (last (active ws)) = Waiting"
    using ws by (cases ws') (auto simp: last_map)
  moreover have "chain s \<noteq> []" using assms(1) ne by simp
  ultimately show ?thesis using l by (auto simp: queuePromise_nonempty)
qed

lemma queuePromise_idle:
  assumes "chain s = fs" "list_all isFinished fs"
  shows "queuePromise s = Settled (Resolved ()) \<or> (\<exists>e. queuePromise s = Settled (Rejected e))"
proof (cases "fs = []")
  case True
  then show ?thesis using assms by (simp add: queuePromise_def)
next
  case False
  then have "isFinished (last fs)" using assms(2) by (simp add: list_all_iff)
  then obtain b out where "last fs = (b, Finished out)" by (cases "last fs" rule: isFinished.cases) auto
  then show ?thesis using assms(1) False
    by (cases out) (auto simp: queuePromise_nonempty)
qed

lemma enqueue_fields:
  "workerPromise (enqueue b s) = workerPromise s"
  "createWorkerCalls (enqueue b s) = createWorkerCalls s"
  "awaiting (enqueue b s) = awaiting s"
  by (auto simp: enqueue_def split: promise.splits settle.splits)

lemma enqueue_shape:
  assumes "shaped (chain s)"
  shows "shaped (chain (enqueue b s))"
proof -
  from assms obtain fs ws where ch: "chain s = fs @ active ws" and fin: "list_all isFinished fs"
    unfolding shaped_def by blast
  show ?thesis
  proof (cases "ws = []")
    case False
    then have "queuePromise s = Pending" using ch by (rule queuePromise_busy[rotated])
    then have "chain (enqueue b s) = fs @ active (ws @ [b])"
      using ch False by (simp add: enqueue_def active_snoc)
    then show ?thesis using fin unfolding shaped_def by blast
  next
    case True
    then have c: "chain s = fs" using ch by simp
    from queuePromise_idle[OF c fin] show ?thesis
    proof
      assume "queuePromise s = Settled (Resolved ())"
      then have "chain (enqueue b s) = fs @ active [b]" using c by (simp add: enqueue_def)
      then show ?thesis using fin unfolding shaped_def by blast
    next
      assume "\<exists>e. queuePromise s = Settled (Rejected e)"
      then obtain e where "queuePromise s = Settled (Rejected e)" by blast
      then have "chain (enqueue b s) = (fs @ [(b, Finished (Rejected e))]) @ active []"
        using c by (simp add: enqueue_def)
      moreover have "list_all isFinished (fs @ [(b, Finished (Rejected e))])"
        using fin by simp
      ultimately show ?thesis unfolding shaped_def by blast
    qed
  qed
qed

lemma enqueue_wellFormed:
  assumes "wellFormed s" "workerPromise s = Some (Settled (Resolved ()))"
  shows "wellFormed (enqueue b s)"
proof -
  have "shaped (chain s)" using assms(1) by (simp add: wellFormed_def)
  then have "shaped (chain (enqueue b s))" by (rule enqueue_shape)
  then show ?thesis using assms unfolding wellFormed_def by (simp add: enqueue_fields)
qed

lemma foldl_enqueue_wellFormed:
  "wellFormed s \<Longrightarrow> workerPromise s = Some (Settled (Resolved ())) \<Longrightarrow>
   wellFormed (foldl (\<lambda>t b. enqueue b t) s bs)"
  by (induction bs arbitrary: s) (simp_all add: enqueue_wellFormed enqueue_fields)

lemma foldl_failAwait_fields:
  "workerPromise (foldl (\<lambda>t b. failAwait e b t) s bs) = workerPromise s"
  "createWorkerCalls (foldl (\<lambda>t b. failAwait e b t) s bs) = createWorkerCalls s"
  "awaiting (foldl (\<lambda>t b. failAwait e b t) s bs) = awaiting s"
  "chain (foldl (\<lambda>t b. failAwait e b t) s bs) = chain s"
  "recognized (foldl (\<lambda>t b. failAwait e b t) s bs) = recognized s"
  "settled (foldl (\<lambda>t b. failAwait e b t) s bs) = settled s @ map (\<lambda>b. (b, Rejected e)) bs"
  by (induction bs arbitrary: s) (simp_all add: failAwait_def)

lemma runOcr_wellFormed: "wellFormed s \<Longrightarrow> wellFormed (runOcr b s)"
proof -
  assume wf: "wellFormed s"
  show ?thesis
  proof (cases "workerPromise s")
    case None
    then show ?thesis using wf by (simp add: runOcr_def getWorker_def wellFormed_def)
  next
    case (Some p)
    then have g: "getWorker s = s" by (simp add: getWorker_def)
    show ?thesis
    proof (cases p)
      case Pending
      then show ?thesis using wf Some g by (simp add: runOcr_def wellFormed_def)
    next
      case (Settled out)
      show ?thesis
      proof (cases out)
        case (Resolved u)
        then show ?thesis using wf Some g Settled by (simp add: runOcr_def enqueue_wellFormed)
      next
        case (Rejected e)
        then show ?thesis using wf Some g Settled
          by (simp add: runOcr_def failAwait_def wellFormed_def)
      qed
    qed
  qed
qed

lemma initSettled_wellFormed:
  assumes "wellFormed s" "initSettled out s = Some s'"
  shows "wellFormed s'"
proof -
  from assms(2) have p: "workerPromise s = Some Pending"
    by (auto simp: initSettled_def split: if_splits)
  then have c: "chain s = []" using assms(1) by (simp add: wellFormed_def)
  define s1 where "s1 = s\<lparr>workerPromise := Some (Settled out), awaiting := []\<rparr>"
  have wf1: "wellFormed s1" if "out = Resolved ()"
    using assms(1) p c that unfolding wellFormed_def s1_def
    by (simp add:)
  show ?thesis
  proof (cases out)
    case (Resolved u)
    then have "s' = foldl (\<lambda>t b. enqueue b t) s1 (awaiting s)"
      using assms(2) p by (simp add: initSettled_def s1_def Let_def)
    moreover have "workerPromise s1 = Some (Settled (Resolved ()))" using Resolved by (simp add: s1_def)
    ultimately show ?thesis using wf1 Resolved by (simp add: foldl_enqueue_wellFormed)
  next
    case (Rejected e)
    then have "s' = foldl (\<lambda>t b. failAwait e b t) s1 (awaiting s)"
      using assms(2) p by (simp add: initSettled_def s1_def Let_def)
    then show ?thesis using assms(1) p c Rejected unfolding wellFormed_def
      by (simp add: foldl_failAwait_fields s1_def)
  qed
qed

lemma advance_waiting_resolved:
  "advance (Resolved r) (map (\<lambda>x. (x, Waiting)) ws) = (active ws, take 1 ws, [])"
  by (cases ws) simp_all

lemma advance_waiting_rejected:
  "advance (Rejected e) (map (\<lambda>x. (x, Waiting)) ws) =
     (map (\<lambda>x. (x, Finished (Rejected e))) ws, [], map (\<lambda>x. (x, Rejected e)) ws)"
  by (induction ws) simp_all

lemma settleRunning_finished:
  "list_all isFinished fs \<Longrightarrow>
   settleRunning out (fs @ c) =
     (case settleRunning out c of
        None \<Rightarrow> None
      | Some (c', started, rejected) \<Rightarrow> Some (fs @ c', started, rejected))"
proof (induction fs)
  case Nil
  show ?case by (simp split: option.splits)
next
  case (Cons f fs)
  then obtain b o' where f: "f = (b, Finished o')" by (cases f rule: isFinished.cases) auto
  show ?case using Cons by (simp add: f split: option.splits)
qed

lemma settleRunning_active:
  "settleRunning out (active ws) =
     (case ws of
        [] \<Rightarrow> None
      | w # ws' \<Rightarrow>
          (case out of
             Resolved r \<Rightarrow> Some ((w, Finished out) # active ws', take 1 ws', [(w, out)])
           | Rejected e \<Rightarrow>
               Some ((w, Finished out) # map (\<lambda>x. (x, Finished (Rejected e))) ws', [],
                     (w, out) # map (\<lambda>x. (x, Rejected e)) ws')))"
  by (cases ws; cases out) (simp_all add: advance_waiting_resolved advance_waiting_rejected)

lemma settleRunning_shaped:
  assumes "list_all isFinished fs"
  shows "settleRunning out (fs @ active ws) =
     (case ws of
        [] \<Rightarrow> None
      | w # ws' \<Rightarrow>
          (case out of
             Resolved r \<Rightarrow> Some (fs @ (w, Finished out) # active ws', take 1 ws', [(w, out)])
           | Rejected e \<Rightarrow>
               Some (fs @ (w, Finished out) # map (\<lambda>x. (x, Finished (Rejected e))) ws', [],
                     (w, out) # map (\<lambda>x. (x, Rejected e)) ws')))"
  unfolding settleRunning_finished[OF assms] settleRunning_active
  by (simp split: list.splits settle.splits)

lemma list_all_finished_map: "list_all isFinished (map (\<lambda>x. (x, Finished out)) ws)"
  by (induction ws) simp_all

lemma recognizeSettled_wellFormed:
  assumes "wellFormed s" "recognizeSettled out s = Some s'"
  shows "wellFormed s'"
proof -
  from assms(1) obtain fs ws where ch: "chain s = fs @ active ws" and fin: "list_all isFinished fs"
    unfolding wellFormed_def shaped_def by blast
  note sr = settleRunning_shaped[OF fin, of out ws, folded ch]
  from assms(2) sr obtain w ws' where ws: "ws = w # ws'"
    by (cases ws) (simp_all add: recognizeSettled_def)
  have ne: "chain s \<noteq> []" using ch ws by simp
  have "shaped (chain s')"
  proof (cases out)
    case (Resolved r)
    have "settleRunning out (chain s) =
        Some (fs @ (w, Finished out) # active ws', take 1 ws', [(w, out)])"
      unfolding ch ws Resolved by (subst settleRunning_shaped[OF fin]) simp
    then have "chain s' = (fs @ [(w, Finished out)]) @ active ws'"
      using assms(2) by (auto simp: recognizeSettled_def)
    moreover have "list_all isFinished (fs @ [(w, Finished out)])" using fin by simp
    ultimately show ?thesis unfolding shaped_def by blast
  next
    case (Rejected e)
    have "settleRunning out (chain s) =
        Some (fs @ (w, Finished out) # map (\<lambda>x. (x, Finished (Rejected e))) ws', [],
              (w, out) # map (\<lambda>x. (x, Rejected e)) ws')"
      unfolding ch ws Rejected by (subst settleRunning_shaped[OF fin]) simp
    then have "chain s' = (fs @ (w, Finished out) # map (\<lambda>x. (x, Finished (Rejected e))) ws') @ active []"
      using assms(2) by (auto simp: recognizeSettled_def)
    moreover have "list_all isFinished (fs @ (w, Finished out) # map (\<lambda>x. (x, Finished (Rejected e))) ws')"
      using fin by (simp add: list_all_finished_map)
    ultimately show ?thesis unfolding shaped_def by blast
  qed
  moreover have "workerPromise s' = workerPromise s" "createWorkerCalls s' = createWorkerCalls s"
    "awaiting s' = awaiting s"
    using assms(2) by (auto simp: recognizeSettled_def split: option.splits)
  ultimately show ?thesis using assms(1) ne unfolding wellFormed_def by auto
qed

lemma step_wellFormed:
  assumes "wellFormed s" "step s ev = Some s'"
  shows "wellFormed s'"
proof (cases ev)
  case (RunOcr b)
  then show ?thesis using assms runOcr_wellFormed[of s b] by simp
next
  case (InitSettled out)
  then show ?thesis using assms initSettled_wellFormed[of s out s'] by simp
next
  case (RecognizeSettled out)
  then show ?thesis using assms recognizeSettled_wellFormed[of s out s'] by simp
qed

lemma run_wellFormed: "wellFormed s \<Longrightarrow> run s evs = Some s' \<Longrightarrow> wellFormed s'"
proof (induction evs arbitrary: s)
  case Nil
  then show ?case by simp
next
  case (Cons ev evs)
  from Cons.prems(2) obtain s1 where s1: "step s ev = Some s1" "run s1 evs = Some s'"
    by (simp split: option.splits)
  have "wellFormed s1" using Cons.prems(1) s1(1) by (rule step_wellFormed)
  then show ?case using s1(2) by (rule Cons.IH)
qed

lemma wellFormed_initial: "wellFormed initial"
  by (simp add: wellFormed_def initial_def)

lemma inFlight_active: "length (filter (\<lambda>l. snd l = Running) (active ws)) \<le> 1"
  by (cases ws) (simp_all add: filter_map comp_def)

lemma finished_not_running: "list_all isFinished fs \<Longrightarrow> filter (\<lambda>l. snd l = Running) fs = []"
proof (induction fs)
  case Nil
  show ?case by simp
next
  case (Cons f fs)
  then obtain b o' where "f = (b, Finished o')" by (cases f rule: isFinished.cases) auto
  then show ?case using Cons by simp
qed

lemma wellFormed_inFlight:
  assumes "wellFormed s"
  shows "inFlight s \<le> 1"
proof -
  from assms obtain fs ws where ch: "chain s = fs @ active ws" and fin: "list_all isFinished fs"
    unfolding wellFormed_def shaped_def by blast
  have "inFlight s = length (filter (\<lambda>l. snd l = Running) (active ws))"
    by (simp add: inFlight_def ch finished_not_running[OF fin])
  then show ?thesis using inFlight_active[of ws] by simp
qed

lemma wellFormed_createWorkerCalls: "wellFormed s \<Longrightarrow> createWorkerCalls s \<le> 1"
  unfolding wellFormed_def by simp

lemma initial_waitState: "initial = waitState []"
  by (simp add: initial_def waitState_def)

lemma runOcr_waitState: "runOcr b (waitState bs) = waitState (bs @ [b])"
  by (simp add: runOcr_def getWorker_def waitState_def)

lemma run_append:
  "run s (xs @ ys) = (case run s xs of None \<Rightarrow> None | Some s' \<Rightarrow> run s' ys)"
  by (induction xs arbitrary: s) (simp_all split: option.splits)

lemma run_calls_waitState: "run (waitState xs) (map RunOcr bs) = Some (waitState (xs @ bs))"
  by (induction bs arbitrary: xs) (simp_all add: runOcr_waitState)

lemma finishedPart: "list_all isFinished (map (\<lambda>(b, r). (b, Finished (Resolved r))) xs)"
  by (induction xs) auto

lemma queuePromise_empty: "chain s = [] \<Longrightarrow> queuePromise s = Settled (Resolved ())"
  by (simp add: queuePromise_def)

lemma queuePromise_okState_idle:
  "length ds = length rs \<Longrightarrow> queuePromise (okState ds rs []) = Settled (Resolved ())"
proof (cases "zip ds rs = []")
  case True
  have "chain (okState ds rs []) = map (\<lambda>(b, r). (b, Finished (Resolved r))) (zip ds rs)"
    by (simp add: okState_def)
  then have "chain (okState ds rs []) = []" unfolding True by simp
  then show ?thesis by (rule queuePromise_empty)
next
  case False
  then obtain b r where "last (zip ds rs) = (b, r)" by (cases "last (zip ds rs)") auto
  then show ?thesis using False
    by (simp add: okState_def queuePromise_nonempty last_map)
qed

lemma enqueue_okState:
  assumes "length ds = length rs"
  shows "enqueue b (okState ds rs ws) = okState ds rs (ws @ [b])"
proof (cases "ws = []")
  case True
  then show ?thesis using queuePromise_okState_idle[OF assms]
    by (simp add: enqueue_def okState_def)
next
  case False
  have "chain (okState ds rs ws) = map (\<lambda>(b, r). (b, Finished (Resolved r))) (zip ds rs) @ active ws"
    by (simp add: okState_def)
  then have "queuePromise (okState ds rs ws) = Pending" using False by (rule queuePromise_busy)
  then show ?thesis using False
    by (cases ws) (simp_all add: enqueue_def okState_def)
qed

lemma foldl_enqueue_okState:
  "length ds = length rs \<Longrightarrow>
   foldl (\<lambda>t b. enqueue b t) (okState ds rs ws) bs = okState ds rs (ws @ bs)"
  by (induction bs arbitrary: ws) (simp_all add: enqueue_okState)

lemma initSettled_waitState:
  "bs \<noteq> [] \<Longrightarrow> initSettled (Resolved ()) (waitState bs) = Some (okState [] [] bs)"
proof -
  assume ne: "bs \<noteq> []"
  have "waitState bs\<lparr>workerPromise := Some (Settled (Resolved ())), awaiting := []\<rparr> = okState [] [] []"
    using ne by (simp add: waitState_def okState_def)
  moreover have "workerPromise (waitState bs) = Some Pending" "awaiting (waitState bs) = bs"
    using ne by (simp_all add: waitState_def)
  ultimately show ?thesis
    using foldl_enqueue_okState[of "[]" "[]" "[]" bs] by (simp add: initSettled_def Let_def)
qed

lemma initSettled_failed:
  "bs \<noteq> [] \<Longrightarrow> initSettled (Rejected e) (waitState bs) = Some (failedState e bs)"
  by (simp add: initSettled_def Let_def waitState_def failedState_def foldl_failAwait_fields)

lemma initSettled_disabled:
  "initSettled out (waitState []) = None"
  "initSettled out (okState ds rs ws) = None"
  "initSettled out (failedState e bs) = None"
  by (simp_all add: initSettled_def waitState_def okState_def failedState_def)

lemma recognizeSettled_disabled:
  "recognizeSettled out (waitState bs) = None"
  "recognizeSettled out (failedState e bs) = None"
  by (simp_all add: recognizeSettled_def waitState_def failedState_def)

lemma recognizeSettled_okState:
  assumes "length ds = length rs"
  shows "recognizeSettled (Resolved r) (okState ds rs ws) =
     (case ws of [] \<Rightarrow> None | w # ws' \<Rightarrow> Some (okState (ds @ [w]) (rs @ [r]) ws'))"
proof -
  have "settleRunning (Resolved r) (chain (okState ds rs ws)) =
      (case ws of
         [] \<Rightarrow> None
       | w # ws' \<Rightarrow>
           Some (map (\<lambda>(b, r). (b, Finished (Resolved r))) (zip ds rs) @
                   (w, Finished (Resolved r)) # active ws', take 1 ws', [(w, Resolved r)]))"
    unfolding okState_def manager.simps
    by (subst settleRunning_shaped[OF finishedPart]) (simp split: list.splits)
  then show ?thesis using assms
    by (cases ws) (simp_all add: recognizeSettled_def okState_def)
qed

lemma runOcr_okState:
  "length ds = length rs \<Longrightarrow> runOcr b (okState ds rs ws) = okState ds rs (ws @ [b])"
proof -
  assume l: "length ds = length rs"
  have "getWorker (okState ds rs ws) = okState ds rs ws" by (simp add: getWorker_def okState_def)
  moreover have "workerPromise (okState ds rs ws) = Some (Settled (Resolved ()))"
    by (simp add: okState_def)
  ultimately show ?thesis using enqueue_okState[OF l] by (simp add: runOcr_def)
qed

lemma runOcr_failedState: "runOcr b (failedState e bs) = failedState e (bs @ [b])"
  by (simp add: runOcr_def getWorker_def failAwait_def failedState_def)

lemma submitted_append: "submitted (xs @ ys) = submitted xs @ submitted ys"
  by (induction xs rule: submitted.induct) simp_all

lemma results_append: "results (xs @ ys) = results xs @ results ys"
  by (induction xs rule: results.induct) simp_all

lemma submitted_calls: "submitted (map RunOcr bs) = bs"
  by (induction bs) simp_all

lemma tracks_step:
  assumes t: "tracks evs s" and ff: "\<not> isFailure ev" and st: "step s ev = Some s'"
  shows "tracks (evs @ [ev]) s'"
proof (cases "initDone evs")
  case False
  then have r: "results evs = []" and s: "s = waitState (submitted evs)"
    using t by (simp_all add: tracks_def)
  show ?thesis
  proof (cases ev)
    case (RunOcr b)
    then have "s' = waitState (submitted evs @ [b])" using st s by (simp add: runOcr_waitState)
    then show ?thesis using False r RunOcr
      by (simp add: tracks_def initDone_def submitted_append results_append)
  next
    case (InitSettled out)
    then have out: "out = Resolved ()" using ff by (cases out) simp_all
    have ne: "submitted evs \<noteq> []"
      using st s InitSettled by (auto simp: initSettled_disabled)
    then have "s' = okState [] [] (submitted evs)"
      using st s InitSettled out by (simp add: initSettled_waitState)
    then show ?thesis using r InitSettled out
      by (simp add: tracks_def initDone_def submitted_append results_append)
  next
    case (RecognizeSettled out)
    then show ?thesis using st s by (simp add: recognizeSettled_disabled)
  qed
next
  case True
  then obtain ds ws where sub: "submitted evs = ds @ ws" and len: "length ds = length (results evs)"
    and s: "s = okState ds (results evs) ws"
    using t unfolding tracks_def by auto
  have done': "initDone (evs @ [ev])" using True by (simp add: initDone_def)
  show ?thesis
  proof (cases ev)
    case (RunOcr b)
    then have "s' = okState ds (results evs) (ws @ [b])"
      using st s len by (simp add: runOcr_okState)
    moreover have "submitted (evs @ [ev]) = ds @ (ws @ [b])"
      using sub RunOcr by (simp add: submitted_append)
    moreover have "results (evs @ [ev]) = results evs" using RunOcr by (simp add: results_append)
    ultimately show ?thesis using done' len unfolding tracks_def by auto
  next
    case (InitSettled out)
    then show ?thesis using st s by (simp add: initSettled_disabled)
  next
    case (RecognizeSettled out)
    then obtain r where out: "out = Resolved r" using ff by (cases out) simp_all
    from st s RecognizeSettled out len obtain w ws' where ws: "ws = w # ws'"
      and s': "s' = okState (ds @ [w]) (results evs @ [r]) ws'"
      by (cases ws) (simp_all add: recognizeSettled_okState)
    have "submitted (evs @ [ev]) = (ds @ [w]) @ ws'"
      using sub ws RecognizeSettled by (simp add: submitted_append)
    moreover have "results (evs @ [ev]) = results evs @ [r]"
      using RecognizeSettled out by (simp add: results_append)
    moreover have "length (ds @ [w]) = length (results evs @ [r])" using len by simp
    ultimately have "\<exists>ds' ws''. submitted (evs @ [ev]) = ds' @ ws'' \<and>
        length ds' = length (results (evs @ [ev])) \<and> s' = okState ds' (results (evs @ [ev])) ws''"
      using s' by metis
    then show ?thesis using done' unfolding tracks_def by simp
  qed
qed

lemma tracks_run:
  "failureFree evs \<Longrightarrow> run initial evs = Some s \<Longrightarrow> tracks evs s"
proof (induction evs arbitrary: s rule: rev_induct)
  case Nil
  then show ?case by (simp add: tracks_def initDone_def initial_waitState)
next
  case (snoc ev evs)
  from snoc.prems(2) obtain s0 where s0: "run initial evs = Some s0" and st: "step s0 ev = Some s"
    by (auto simp: run_append split: option.splits)
  have "failureFree evs" "\<not> isFailure ev" using snoc.prems(1) by (simp_all add: failureFree_def)
  then show ?case using snoc.IH[OF _ s0] st tracks_step by blast
qed

lemma run_results_okState:
  "length ds = length rs0 \<Longrightarrow> length rs \<le> length ws \<Longrightarrow>
   run (okState ds rs0 ws) (map (\<lambda>r. RecognizeSettled (Resolved r)) rs) =
     Some (okState (ds @ take (length rs) ws) (rs0 @ rs) (drop (length rs) ws))"
proof (induction rs arbitrary: ds rs0 ws)
  case Nil
  then show ?case by simp
next
  case (Cons r rs)
  then obtain w ws' where ws: "ws = w # ws'" by (cases ws) auto
  have "run (okState (ds @ [w]) (rs0 @ [r]) ws') (map (\<lambda>r. RecognizeSettled (Resolved r)) rs) =
      Some (okState ((ds @ [w]) @ take (length rs) ws') ((rs0 @ [r]) @ rs) (drop (length rs) ws'))"
    using Cons.prems ws by (intro Cons.IH) simp_all
  then show ?case using Cons.prems(1) ws by (simp add: recognizeSettled_okState)
qed

lemma run_schedule:
  assumes "bs \<noteq> []" "length rs = length bs"
  shows "run initial (map RunOcr bs @ InitSettled (Resolved ()) #
           map (\<lambda>r. RecognizeSettled (Resolved r)) rs) = Some (okState bs rs [])"
proof -
  have "run initial (map RunOcr bs) = Some (waitState bs)"
    using run_calls_waitState[of "[]" bs] by (simp add: initial_waitState)
  moreover have "run (okState [] [] bs) (map (\<lambda>r. RecognizeSettled (Resolved r)) rs) =
      Some (okState ([] @ take (length rs) bs) ([] @ rs) (drop (length rs) bs))"
    using assms(2) by (intro run_results_okState) simp_all
  ultimately show ?thesis using assms
    by (simp add: run_append initSettled_waitState)
qed

lemma run_failed_calls:
  "run (failedState e xs) (map RunOcr bs) = Some (failedState e (xs @ bs))"
  by (induction bs arbitrary: xs) (simp_all add: runOcr_failedState)

lemma run_failed:
  "run (failedState e xs) evs = Some s \<Longrightarrow> s = failedState e (xs @ submitted evs)"
proof (induction evs arbitrary: xs)
  case Nil
  then show ?case by simp
next
  case (Cons ev evs)
  show ?case
  proof (cases ev)
    case (RunOcr b)
    then have "run (failedState e (xs @ [b])) evs = Some s"
      using Cons.prems by (simp add: runOcr_failedState)
    then have "s = failedState e ((xs @ [b]) @ submitted evs)" by (rule Cons.IH)
    then show ?thesis using RunOcr by simp
  next
    case (InitSettled out)
    then show ?thesis using Cons.prems by (simp add: initSettled_disabled)
  next
    case (RecognizeSettled out)
    then show ?thesis using Cons.prems by (simp add: recognizeSettled_disabled)
  qed
qed

lemmas mgr_eval = initial_def runOcr_def getWorker_def enqueue_def queuePromise_def
  initSettled_def recognizeSettled_def failAwait_def Let_def

lemma rejected_queue_rejects_calls:
  assumes "workerPromise s = Some (Settled (Resolved ()))" "queuePromise s = Settled (Rejected e)"
  shows "runOcr b s = s\<lparr>chain := chain s @ [(b, Finished (Rejected e))],
                          settled := settled s @ [(b, Rejected e)]\<rparr>"
    and "queuePromise (runOcr b s) = Settled (Rejected e)"
    and "recognized (runOcr b s) = recognized s"
proof -
  show r: "runOcr b s = s\<lparr>chain := chain s @ [(b, Finished (Rejected e))],
                          settled := settled s @ [(b, Rejected e)]\<rparr>"
    using assms by (simp add: runOcr_def getWorker_def enqueue_def)
  show "queuePromise (runOcr b s) = Settled (Rejected e)"
    unfolding r by (simp add: queuePromise_nonempty)
  show "recognized (runOcr b s) = recognized s" unfolding r by simp
qed

lemma zip_prefix: "length ds = length rs \<Longrightarrow> zip (ds @ ws) rs = zip ds rs"
  by (induction ds rs rule: list_induct2) simp_all

lemma inFlight_okState_done: "inFlight (okState ds rs []) = 0"
  by (simp add: inFlight_def okState_def finished_not_running[OF finishedPart])

text \<open>
  C1 fails on the code. One job is submitted and its recognition is rejected with the
  error \<open>7\<close>; a second job is submitted afterwards. The promise in \<open>queue\<close> is then
  rejected, and line 121 chains the second job to it with a callback for fulfilment only:
  the callback never runs, \<^verbatim>\<open>worker.recognize\<close> is not called for the second buffer, and
  the second caller gets the error of the first job.
\<close>

theorem job_failure_poisons_queue:
  "run initial [RunOcr 1, InitSettled (Resolved ()), RecognizeSettled (Rejected 7), RunOcr 2] =
     Some \<lparr>workerPromise = Some (Settled (Resolved ())), createWorkerCalls = 1, awaiting = [],
            chain = [(1, Finished (Rejected 7)), (2, Finished (Rejected 7))],
            recognized = [1],
            settled = [(1, Rejected 7), (2, Rejected 7)]\<rparr>"
  by (simp add: mgr_eval)

text \<open>
  C6, as the code has it: when the initialization fails with an error \<open>e\<close>, every call
  that was waiting for the worker is rejected with \<open>e\<close>, and the rejected promise stays in
  \<open>workerPromise\<close>: every later call of \<open>runOcr\<close> is rejected with \<open>e\<close> as well, nothing
  is recognized, and \<^verbatim>\<open>createWorker\<close> is not called again, whatever events follow.
\<close>

theorem init_failure_memoized:
  assumes "bs \<noteq> []"
  shows "run initial (map RunOcr bs @ [InitSettled (Rejected e)]) = Some (failedState e bs) \<and>
    run (failedState e bs) (map RunOcr bs') = Some (failedState e (bs @ bs')) \<and>
    (run (failedState e bs) evs = Some s \<longrightarrow> s = failedState e (bs @ submitted evs))"
proof (intro conjI impI)
  have "run initial (map RunOcr bs) = Some (waitState bs)"
    using run_calls_waitState[of "[]" bs] by (simp add: initial_waitState)
  then show "run initial (map RunOcr bs @ [InitSettled (Rejected e)]) = Some (failedState e bs)"
    using assms by (simp add: run_append initSettled_failed)
  show "run (failedState e bs) (map RunOcr bs') = Some (failedState e (bs @ bs'))"
    by (rule run_failed_calls)
next
  assume "run (failedState e bs) evs = Some s"
  then show "s = failedState e (bs @ submitted evs)" by (rule run_failed)
qed

theorem init_failure_memoized_witness:
  "run initial [RunOcr 1, RunOcr 2, InitSettled (Rejected 7)] = Some (failedState 7 [1, 2]) \<and>
   run (failedState 7 [1, 2]) [RunOcr 3] = Some (failedState 7 [1, 2, 3]) \<and>
   createWorkerCalls (failedState 7 [1, 2, 3]) = 1 \<and>
   recognized (failedState 7 [1, 2, 3]) = [] \<and>
   settled (failedState 7 [1, 2, 3]) = [(1, Rejected 7), (2, Rejected 7), (3, Rejected 7)]"
  using init_failure_memoized[of "[1, 2]" 7 "[3]" "[RunOcr 3]" "failedState 7 [1, 2, 3]"]
  by (simp add: failedState_def)

text \<open>
  C6 as the specification states it fails: after a failed initialization a further call
  does not retry it. \<^verbatim>\<open>createWorker\<close> has still been called once, and the call is rejected
  with the old error.
\<close>

theorem init_not_retried_counterexample:
  "run initial [RunOcr 1, InitSettled (Rejected 7), RunOcr 2] =
     Some \<lparr>workerPromise = Some (Settled (Rejected 7)), createWorkerCalls = 1, awaiting = [],
            chain = [], recognized = [], settled = [(1, Rejected 7), (2, Rejected 7)]\<rparr>"
  by (simp add: mgr_eval)

text \<open>
  C9, as the code has it. In every state that events lead to, \<^verbatim>\<open>createWorker\<close> has been
  called at most once and at most one \<^verbatim>\<open>recognize\<close> call is in flight. Where no event is
  a failure: the buffers are given to \<^verbatim>\<open>recognize\<close> in the order of submission; the jobs
  settle in the order of submission, each with the result of its own recognition;
  \<^verbatim>\<open>createWorker\<close> is called exactly once if a job is submitted; after a successful
  initialization as many recognitions have begun as have settled, and one more if a job
  is left; and when as many recognitions have settled as jobs were submitted, every buffer
  was recognized once and none is in flight. Last, the schedule in which \<open>N\<close> jobs are
  submitted before the initialization succeeds and \<open>N\<close> recognitions succeed can happen,
  and ends with \<open>N\<close> recognitions in the order of submission.
\<close>

theorem manager_serializes:
  "(run initial evs = Some s \<longrightarrow> createWorkerCalls s \<le> 1 \<and> inFlight s \<le> 1) \<and>
   (run initial evs = Some s \<and> failureFree evs \<longrightarrow>
      recognized s = take (length (recognized s)) (submitted evs) \<and>
      settled s = zip (submitted evs) (map Resolved (results evs)) \<and>
      length (results evs) \<le> length (submitted evs) \<and>
      (submitted evs \<noteq> [] \<longrightarrow> createWorkerCalls s = 1) \<and>
      (initDone evs \<longrightarrow>
         length (recognized s) = min (length (submitted evs)) (length (results evs) + 1)) \<and>
      (initDone evs \<and> length (results evs) = length (submitted evs) \<longrightarrow>
         recognized s = submitted evs \<and> inFlight s = 0)) \<and>
   (bs \<noteq> [] \<and> length rs = length bs \<longrightarrow>
      run initial (map RunOcr bs @ InitSettled (Resolved ()) #
          map (\<lambda>r. RecognizeSettled (Resolved r)) rs) =
        Some \<lparr>workerPromise = Some (Settled (Resolved ())), createWorkerCalls = 1,
               awaiting = [], chain = map (\<lambda>(b, r). (b, Finished (Resolved r))) (zip bs rs),
               recognized = bs, settled = zip bs (map Resolved rs)\<rparr>)"
proof (intro conjI impI)
  assume "run initial evs = Some s"
  then have wf: "wellFormed s" using wellFormed_initial run_wellFormed by blast
  show "createWorkerCalls s \<le> 1" using wf by (rule wellFormed_createWorkerCalls)
  show "inFlight s \<le> 1" using wf by (rule wellFormed_inFlight)
next
  assume "bs \<noteq> [] \<and> length rs = length bs"
  then show "run initial (map RunOcr bs @ InitSettled (Resolved ()) #
          map (\<lambda>r. RecognizeSettled (Resolved r)) rs) =
        Some \<lparr>workerPromise = Some (Settled (Resolved ())), createWorkerCalls = 1,
               awaiting = [], chain = map (\<lambda>(b, r). (b, Finished (Resolved r))) (zip bs rs),
               recognized = bs, settled = zip bs (map Resolved rs)\<rparr>"
    using run_schedule[of bs rs] by (simp add: okState_def)
next
  assume a: "run initial evs = Some s \<and> failureFree evs"
  then have t: "tracks evs s" using tracks_run by blast
  have main: "recognized s = take (length (recognized s)) (submitted evs) \<and>
      settled s = zip (submitted evs) (map Resolved (results evs)) \<and>
      length (results evs) \<le> length (submitted evs) \<and>
      (submitted evs \<noteq> [] \<longrightarrow> createWorkerCalls s = 1) \<and>
      (initDone evs \<longrightarrow>
         length (recognized s) = min (length (submitted evs)) (length (results evs) + 1)) \<and>
      (initDone evs \<and> length (results evs) = length (submitted evs) \<longrightarrow>
         recognized s = submitted evs \<and> inFlight s = 0)"
  proof (cases "initDone evs")
    case False
    then have "results evs = []" "s = waitState (submitted evs)"
      using t by (simp_all add: tracks_def)
    then show ?thesis using False by (simp add: waitState_def)
  next
    case True
    then obtain ds ws where sub: "submitted evs = ds @ ws"
      and len: "length ds = length (results evs)" and s: "s = okState ds (results evs) ws"
      using t unfolding tracks_def by auto
    have rec: "recognized s = ds @ take 1 ws" by (simp add: s okState_def)
    have "settled s = zip ds (map Resolved (results evs))" by (simp add: s okState_def)
    then have set: "settled s = zip (submitted evs) (map Resolved (results evs))"
      using len by (simp add: sub zip_prefix)
    have all: "recognized s = submitted evs \<and> inFlight s = 0"
      if "length (results evs) = length (submitted evs)"
    proof -
      have w: "ws = []" using that len sub by simp
      have "inFlight s = 0" unfolding s w by (rule inFlight_okState_done)
      moreover have "recognized s = submitted evs" using w sub by (simp add: s okState_def)
      ultimately show ?thesis by simp
    qed
    show ?thesis using rec set len sub all
      by (cases ws) (simp_all add: s okState_def)
  qed
  show "recognized s = take (length (recognized s)) (submitted evs)" using main by blast
  show "settled s = zip (submitted evs) (map Resolved (results evs))" using main by blast
  show "length (results evs) \<le> length (submitted evs)" using main by blast
  show "createWorkerCalls s = 1" if "submitted evs \<noteq> []" using main that by blast
  show "length (recognized s) = min (length (submitted evs)) (length (results evs) + 1)"
    if "initDone evs" using main that by blast
  show "recognized s = submitted evs" if "initDone evs \<and> length (results evs) = length (submitted evs)"
    using main that by blast
  show "inFlight s = 0" if "initDone evs \<and> length (results evs) = length (submitted evs)"
    using main that by blast
qed

theorem manager_serializes_witness:
  "failureFree [RunOcr 1, RunOcr 2, InitSettled (Resolved ()), RecognizeSettled (Resolved 11),
      RecognizeSettled (Resolved 12)] \<and>
   run initial [RunOcr 1, RunOcr 2, InitSettled (Resolved ()), RecognizeSettled (Resolved 11),
      RecognizeSettled (Resolved 12)] =
     Some \<lparr>workerPromise = Some (Settled (Resolved ())), createWorkerCalls = 1, awaiting = [],
            chain = [(1, Finished (Resolved 11)), (2, Finished (Resolved 12))],
            recognized = [1, 2], settled = [(1, Resolved 11), (2, Resolved 12)]\<rparr> \<and>
   inFlight \<lparr>workerPromise = Some (Settled (Resolved ())), createWorkerCalls = 1, awaiting = [],
            chain = [(1, Finished (Resolved 11)), (2, Finished (Resolved 12))],
            recognized = [1, 2], settled = [(1, Resolved 11), (2, Resolved 12)]\<rparr> = 0"
  using manager_serializes[of
      "[RunOcr 1, RunOcr 2, InitSettled (Resolved ()), RecognizeSettled (Resolved 11),
        RecognizeSettled (Resolved 12)]"
      "\<lparr>workerPromise = Some (Settled (Resolved ())), createWorkerCalls = 1, awaiting = [],
         chain = [(1, Finished (Resolved 11)), (2, Finished (Resolved 12))],
         recognized = [1, 2], settled = [(1, Resolved 11), (2, Resolved 12)]\<rparr>"
      "[1, 2]" "[11, 12]"]
  by (simp add: failureFree_def initDone_def)

text \<open>
  C9 as the specification states it fails in two ways. Two jobs are submitted and the
  initialization succeeds; the first recognition is rejected: the second buffer is never
  recognized, and both jobs are settled, so one recognition ran for two jobs. Or the
  initialization is rejected: no recognition runs at all.
\<close>

theorem two_jobs_one_recognition_counterexample:
  "run initial [RunOcr 1, RunOcr 2, InitSettled (Resolved ()), RecognizeSettled (Rejected 7)] =
     Some \<lparr>workerPromise = Some (Settled (Resolved ())), createWorkerCalls = 1, awaiting = [],
            chain = [(1, Finished (Rejected 7)), (2, Finished (Rejected 7))],
            recognized = [1], settled = [(1, Rejected 7), (2, Rejected 7)]\<rparr> \<and>
   run initial [RunOcr 1, RunOcr 2, InitSettled (Rejected 7)] =
     Some \<lparr>workerPromise = Some (Settled (Rejected 7)), createWorkerCalls = 1, awaiting = [],
            chain = [], recognized = [], settled = [(1, Rejected 7), (2, Rejected 7)]\<rparr>"
  by (simp add: mgr_eval)

end
